theory Spec2Isabelle
  imports Main "HOL-Library.Word" "HOL-Library.AList"
begin

section \<open>The buffer pool core: LRU replacer and buffer pool manager instance\<close>

text \<open>
  A shallow embedding of \<^verbatim>\<open>src/buffer/lru_replacer.cpp\<close> and
  \<^verbatim>\<open>src/buffer/buffer_pool_manager_instance.cpp\<close>.

  \<^item> Every member function becomes a function from the object's state to a result and
    the new state. The mutexes serialise the member functions; the model is the
    sequential behaviour of one call.
  \<^item> \<^verbatim>\<open>page_id_t\<close> and the \<^verbatim>\<open>uint32_t\<close> fields are 32-bit words: \<open>+\<close> wraps
    and \<open>mod\<close> is the unsigned remainder, which is what \<^verbatim>\<open>page_id % num_instances_\<close>
    computes after the usual arithmetic conversions.
  \<^item> \<^verbatim>\<open>frame_id_t\<close> values are only stored, compared and used as array indices, with
    \<open>- 1\<close> as the "no frame" sentinel: they are integers (a pool of \<open>2 ^ 31\<close> frames or
    more, where \<^verbatim>\<open>static_cast<int>\<close> of an index would wrap, is outside the model).
    \<^verbatim>\<open>pin_count_\<close> is an integer too; its overflow (after \<open>2 ^ 31\<close> pins of one
    page) is outside the model.
  \<^item> A \<^verbatim>\<open>std::unordered_map\<close> is an association list with unique keys; iterating
    it follows the list.
  \<^item> A \<^verbatim>\<open>std::list\<close> is the list of its nodes, each node an address paired with the
    stored value; an iterator is a node address. Nodes keep their address when they
    are spliced.
  \<^item> What C++ leaves undefined (an array index out of range, an iterator that does not
    point into the list, a remainder by zero) and a failed \<^verbatim>\<open>assert\<close> are results of
    their own.
\<close>

datatype error = AssertionFailed | UndefinedBehaviour

type_synonym page_id_t = "32 word"
type_synonym frame_id_t = int
type_synonym node = nat
type_synonym page_data = "8 word list"

subsection \<open>LRUReplacer\<close>

record LRUReplacer =
  lru_list :: "(node \<times> frame_id_t) list"
  lru_map :: "(frame_id_t \<times> node) list"
  capacity :: nat

text \<open>
  Modelled from the spec: the constructor of the replacer is not in
  \<^verbatim>\<open>lru_replacer.cpp\<close>. The spec: "initialize the Replacer with capacity
  \<open>pool_size\<close> and empty evictable set".
\<close>

definition LRUReplacer_init :: "nat \<Rightarrow> LRUReplacer" where
  "LRUReplacer_init num_pages = \<lparr>lru_list = [], lru_map = [], capacity = num_pages\<rparr>"

text \<open>The frame ids held by the list, front first: the evictable frames.\<close>

definition evictable :: "LRUReplacer \<Rightarrow> frame_id_t list" where
  "evictable r = map snd (lru_list r)"

text \<open>\<^verbatim>\<open>Victim\<close> returns \<open>None\<close> for \<^verbatim>\<open>false\<close> (the out parameter is then not written).\<close>

definition Victim :: "LRUReplacer \<Rightarrow> (frame_id_t \<times> LRUReplacer) option" where
  "Victim r =
     (if lru_list r = [] \<or> lru_map r = [] then None
      else
        let victim_fid = snd (last (lru_list r)) in
        Some (victim_fid,
              r\<lparr>lru_list := butlast (lru_list r),
                lru_map := AList.delete victim_fid (lru_map r)\<rparr>))"

text \<open>
  \<^verbatim>\<open>l.splice(l.begin(), l, it)\<close>: the node \<open>it\<close> points to moves to the front. An
  iterator that points to no node of the list is undefined behaviour.
\<close>

definition splice_front :: "(node \<times> 'a) list \<Rightarrow> node \<Rightarrow> error + (node \<times> 'a) list" where
  "splice_front l it =
     (case find (\<lambda>n. fst n = it) l of
        None \<Rightarrow> Inl UndefinedBehaviour
      | Some n \<Rightarrow> Inr (n # remove1 n l))"

definition Pin :: "LRUReplacer \<Rightarrow> frame_id_t \<Rightarrow> error + LRUReplacer" where
  "Pin r f =
     (case map_of (lru_map r) f of
        None \<Rightarrow> Inr r
      | Some pin_iterator \<Rightarrow>
          (case splice_front (lru_list r) pin_iterator of
             Inl e \<Rightarrow> Inl e
           | Inr l \<Rightarrow> Inr (r\<lparr>lru_list := tl l, lru_map := AList.delete f (lru_map r)\<rparr>)))"

text \<open>\<^verbatim>\<open>push_front\<close> allocates a node at an address no node of the list has.\<close>

definition fresh_node :: "(node \<times> 'a) list \<Rightarrow> node" where
  "fresh_node l = Suc (fold max (map fst l) 0)"

definition Unpin :: "LRUReplacer \<Rightarrow> frame_id_t \<Rightarrow> LRUReplacer" where
  "Unpin r f =
     (if map_of (lru_map r) f \<noteq> None \<or> length (lru_map r) = capacity r then r
      else
        let n = fresh_node (lru_list r) in
        r\<lparr>lru_list := (n, f) # lru_list r, lru_map := AList.update f n (lru_map r)\<rparr>)"

text \<open>
  The spec's \<^verbatim>\<open>Pin\<close>: "If \<open>frame_id \<notin> M\<close>, no-op. Else remove it from \<open>L\<close> and from
  \<open>M\<close>", the node removed being the one the map entry points to.
\<close>

definition Pin_erase :: "LRUReplacer \<Rightarrow> frame_id_t \<Rightarrow> LRUReplacer" where
  "Pin_erase r f =
     (case map_of (lru_map r) f of
        None \<Rightarrow> r
      | Some it \<Rightarrow>
          r\<lparr>lru_list := filter (\<lambda>n. fst n \<noteq> it) (lru_list r),
            lru_map := AList.delete f (lru_map r)\<rparr>)"

text \<open>
  The replacer's invariant: node addresses are unique, no frame is listed twice, the
  map's keys are unique, and the map holds exactly one entry per node, from the node's
  frame to the node's address.
\<close>

definition replacer_inv :: "LRUReplacer \<Rightarrow> bool" where
  "replacer_inv r \<longleftrightarrow>
     distinct (map fst (lru_list r)) \<and> distinct (map snd (lru_list r)) \<and>
     distinct (map fst (lru_map r)) \<and>
     set (lru_map r) = (\<lambda>n. (snd n, fst n)) ` set (lru_list r)"

text \<open>
  The invariant as the spec words it for \<^verbatim>\<open>Pin\<close>: the map's keys are the listed
  frames, and each key is mapped to its own node. Node addresses are unique, as they are
  on any heap.
\<close>

definition map_matches_list :: "LRUReplacer \<Rightarrow> bool" where
  "map_matches_list r \<longleftrightarrow>
     distinct (map fst (lru_list r)) \<and>
     set (map fst (lru_map r)) = set (map snd (lru_list r)) \<and>
     (\<forall>e \<in> set (lru_map r). (snd e, fst e) \<in> set (lru_list r))"

subsection \<open>Page frames and the disk\<close>

record Page =
  page_id :: page_id_t
  pin_count :: int
  is_dirty :: bool
  data :: page_data

text \<open>
  Modelled from the spec: \<^verbatim>\<open>Page\<close>, \<^verbatim>\<open>INVALID_PAGE_ID\<close> and \<^verbatim>\<open>PAGE_SIZE\<close> are declared
  in headers that are not among the sources. The spec: a frame is "a fixed-size (e.g.,
  4096-byte)" region with \<open>page_id\<close>, \<open>pin_count\<close>, \<open>is_dirty\<close> and \<open>data\<close>; \<open>INVALID\<close>
  is "conventionally \<open>- 1\<close>"; a new frame is zeroed with \<open>page_id = INVALID\<close>,
  \<open>pin_count = 0\<close>, \<open>is_dirty = false\<close>; \<^verbatim>\<open>ResetMemory\<close> zeroes the data buffer.
\<close>

definition INVALID_PAGE_ID :: page_id_t where
  "INVALID_PAGE_ID = - 1"

definition PAGE_SIZE :: nat where
  "PAGE_SIZE = 4096"

definition zero_data :: page_data where
  "zero_data = replicate PAGE_SIZE 0"

definition Page_init :: Page where
  "Page_init = \<lparr>page_id = INVALID_PAGE_ID, pin_count = 0, is_dirty = False, data = zero_data\<rparr>"

definition ResetMemory :: "Page \<Rightarrow> Page" where
  "ResetMemory p = p\<lparr>data := zero_data\<rparr>"

text \<open>
  Modelled from the spec: the Disk Manager is an external collaborator.
  "\<^verbatim>\<open>WritePage(page_id, in_buffer)\<close>: synchronous, durably writes buffer as the contents
  of \<open>page_id\<close>"; "\<^verbatim>\<open>ReadPage(page_id, out_buffer)\<close>: synchronous, fills buffer with the
  persisted bytes for \<open>page_id\<close>". The disk is the function from page ids to contents.
\<close>

type_synonym disk_t = "page_id_t \<Rightarrow> page_data"

definition WritePage :: "disk_t \<Rightarrow> page_id_t \<Rightarrow> page_data \<Rightarrow> disk_t" where
  "WritePage d pid buf = d(pid := buf)"

definition ReadPage :: "disk_t \<Rightarrow> page_id_t \<Rightarrow> page_data" where
  "ReadPage d pid = d pid"

subsection \<open>BufferPoolManagerInstance\<close>

text \<open>
  \<open>pages\<close> is the array \<^verbatim>\<open>pages_\<close> of \<^verbatim>\<open>pool_size_\<close> frames: the array has no length
  of its own, so \<open>pool_size\<close> is the length of the list.
\<close>

record BufferPoolManagerInstance =
  num_instances :: "32 word"
  instance_index :: "32 word"
  next_page_id :: page_id_t
  pages :: "Page list"
  page_table :: "(page_id_t \<times> frame_id_t) list"
  free_list :: "frame_id_t list"
  replacer :: LRUReplacer
  disk :: disk_t

definition pool_size :: "BufferPoolManagerInstance \<Rightarrow> nat" where
  "pool_size s = length (pages s)"

text \<open>The constructor, with its two assertions.\<close>

definition BufferPoolManagerInstance_init ::
  "nat \<Rightarrow> 32 word \<Rightarrow> 32 word \<Rightarrow> disk_t \<Rightarrow> error + BufferPoolManagerInstance" where
  "BufferPoolManagerInstance_init psize ninst idx dm =
     (if \<not> ninst > 0 then Inl AssertionFailed
      else if \<not> idx < ninst then Inl AssertionFailed
      else Inr \<lparr>num_instances = ninst, instance_index = idx, next_page_id = idx,
                pages = replicate psize Page_init, page_table = [],
                free_list = map int [0..<psize],
                replacer = LRUReplacer_init psize, disk = dm\<rparr>)"

text \<open>\<^verbatim>\<open>pages_[f]\<close> is defined for \<open>0 \<le> f < pool_size_\<close> only.\<close>

definition frame_valid :: "BufferPoolManagerInstance \<Rightarrow> frame_id_t \<Rightarrow> bool" where
  "frame_valid s f \<longleftrightarrow> 0 \<le> f \<and> nat f < length (pages s)"

text \<open>\<^verbatim>\<open>ValidatePageId\<close> and \<^verbatim>\<open>AllocatePage\<close>.\<close>

definition ValidatePageId :: "BufferPoolManagerInstance \<Rightarrow> page_id_t \<Rightarrow> error + unit" where
  "ValidatePageId s pid =
     (if num_instances s = 0 then Inl UndefinedBehaviour
      else if pid mod num_instances s = instance_index s then Inr ()
      else Inl AssertionFailed)"

definition AllocatePage ::
  "BufferPoolManagerInstance \<Rightarrow> error + (page_id_t \<times> BufferPoolManagerInstance)" where
  "AllocatePage s =
     (let npid = next_page_id s;
          s' = s\<lparr>next_page_id := next_page_id s + num_instances s\<rparr>
      in case ValidatePageId s' npid of
           Inl e \<Rightarrow> Inl e
         | Inr _ \<Rightarrow> Inr (npid, s'))"

text \<open>\<^verbatim>\<open>FlushPgImp\<close>.\<close>

definition FlushPgImp ::
  "BufferPoolManagerInstance \<Rightarrow> page_id_t \<Rightarrow> error + (bool \<times> BufferPoolManagerInstance)" where
  "FlushPgImp s pid =
     (case map_of (page_table s) pid of
        None \<Rightarrow> Inr (False, s)
      | Some flush_fid \<Rightarrow>
          if \<not> frame_valid s flush_fid then Inl UndefinedBehaviour
          else
            let flush_page = pages s ! nat flush_fid in
            Inr (True,
                 s\<lparr>disk := WritePage (disk s) (page_id flush_page) (data flush_page),
                   pages := (pages s)[nat flush_fid := flush_page\<lparr>is_dirty := False\<rparr>]\<rparr>))"

text \<open>\<^verbatim>\<open>FlushAllPgsImp\<close>: the loop over the entries of the page table.\<close>

fun FlushAll_loop ::
  "(page_id_t \<times> frame_id_t) list \<Rightarrow> BufferPoolManagerInstance \<Rightarrow>
   error + BufferPoolManagerInstance" where
  "FlushAll_loop [] s = Inr s"
| "FlushAll_loop (entry # rest) s =
     (if \<not> frame_valid s (snd entry) then Inl UndefinedBehaviour
      else
        let flush_page = pages s ! nat (snd entry) in
        FlushAll_loop rest
          (s\<lparr>disk := WritePage (disk s) (page_id flush_page) (data flush_page),
             pages := (pages s)[nat (snd entry) := flush_page\<lparr>is_dirty := False\<rparr>]\<rparr>))"

definition FlushAllPgsImp :: "BufferPoolManagerInstance \<Rightarrow> error + BufferPoolManagerInstance" where
  "FlushAllPgsImp s = FlushAll_loop (page_table s) s"

text \<open>
  The scan \<^verbatim>\<open>for (i = 0; i < pool_size_; i++) if (pages_[i].GetPinCount() == 0)
  is_all_spinned = false;\<close> over the frames in index order.
\<close>

definition is_all_spinned :: "Page list \<Rightarrow> bool" where
  "is_all_spinned ps = fold (\<lambda>p acc. if pin_count p = 0 then False else acc) ps True"

text \<open>
  The \<^verbatim>\<open>do { ... } while (false)\<close> block after the page-table lookup, which
  \<^verbatim>\<open>NewPgImp\<close> and \<^verbatim>\<open>FetchPgImp\<close> both contain: it yields the frame id the block
  leaves in \<^verbatim>\<open>victm_fid\<close> (\<^verbatim>\<open>fetch_fid\<close>), which is still \<open>- 1\<close> when no frame was found.
\<close>

definition pick_frame ::
  "BufferPoolManagerInstance \<Rightarrow> error + (frame_id_t \<times> BufferPoolManagerInstance)" where
  "pick_frame s =
     (case free_list s of
        f # rest \<Rightarrow> Inr (f, s\<lparr>free_list := rest\<rparr>)
      | [] \<Rightarrow>
          if is_all_spinned (pages s) then Inr (- 1, s)
          else
            (case Victim (replacer s) of
               None \<Rightarrow> Inr (- 1, s)
             | Some (f, r') \<Rightarrow>
                 if \<not> frame_valid s f then Inl UndefinedBehaviour
                 else
                   let replace_page = pages s ! nat f in
                   Inr (f,
                        s\<lparr>replacer := r',
                          disk := (if is_dirty replace_page
                                   then WritePage (disk s) (page_id replace_page) (data replace_page)
                                   else disk s),
                          page_table := AList.delete (page_id replace_page) (page_table s)\<rparr>)))"

text \<open>
  \<^verbatim>\<open>NewPgImp\<close>: \<open>None\<close> is \<^verbatim>\<open>nullptr\<close>; otherwise the page id written to the out
  parameter and the frame the returned pointer points to.
\<close>

definition NewPgImp ::
  "BufferPoolManagerInstance \<Rightarrow>
   error + ((page_id_t \<times> frame_id_t) option \<times> BufferPoolManagerInstance)" where
  "NewPgImp s =
     (case AllocatePage s of
        Inl e \<Rightarrow> Inl e
      | Inr (new_pid, s1) \<Rightarrow>
          (case pick_frame s1 of
             Inl e \<Rightarrow> Inl e
           | Inr (victm_fid, s2) \<Rightarrow>
               if victm_fid = - 1 then Inr (None, s2)
               else if \<not> frame_valid s2 victm_fid then Inl UndefinedBehaviour
               else
                 (case Pin (replacer s2) victm_fid of
                    Inl e \<Rightarrow> Inl e
                  | Inr r' \<Rightarrow>
                      let p = pages s2 ! nat victm_fid;
                          victm_page =
                            ResetMemory
                              (p\<lparr>page_id := new_pid, is_dirty := False,
                                 pin_count := pin_count p + 1\<rparr>)
                      in Inr (Some (new_pid, victm_fid),
                              s2\<lparr>page_table := AList.update new_pid victm_fid (page_table s2),
                                 pages := (pages s2)[nat victm_fid := victm_page],
                                 replacer := r'\<rparr>))))"

text \<open>\<^verbatim>\<open>FetchPgImp\<close>: \<open>None\<close> is \<^verbatim>\<open>nullptr\<close>, otherwise the frame of the returned pointer.\<close>

definition FetchPgImp ::
  "BufferPoolManagerInstance \<Rightarrow> page_id_t \<Rightarrow>
   error + (frame_id_t option \<times> BufferPoolManagerInstance)" where
  "FetchPgImp s pid =
     (case map_of (page_table s) pid of
        Some fetch_fid \<Rightarrow>
          if \<not> frame_valid s fetch_fid then Inl UndefinedBehaviour
          else
            (case Pin (replacer s) fetch_fid of
               Inl e \<Rightarrow> Inl e
             | Inr r' \<Rightarrow>
                 let p = pages s ! nat fetch_fid in
                 Inr (Some fetch_fid,
                      s\<lparr>pages := (pages s)[nat fetch_fid := p\<lparr>pin_count := pin_count p + 1\<rparr>],
                        replacer := r'\<rparr>))
      | None \<Rightarrow>
          (case pick_frame s of
             Inl e \<Rightarrow> Inl e
           | Inr (fetch_fid, s2) \<Rightarrow>
               if fetch_fid = - 1 then Inr (None, s2)
               else if \<not> frame_valid s2 fetch_fid then Inl UndefinedBehaviour
               else
                 (case Pin (replacer s2) fetch_fid of
                    Inl e \<Rightarrow> Inl e
                  | Inr r' \<Rightarrow>
                      let p = pages s2 ! nat fetch_fid;
                          fetch_page =
                            p\<lparr>page_id := pid, is_dirty := False,
                              data := ReadPage (disk s2) pid,
                              pin_count := pin_count p + 1\<rparr>
                      in Inr (Some fetch_fid,
                              s2\<lparr>page_table := AList.update pid fetch_fid (page_table s2),
                                 pages := (pages s2)[nat fetch_fid := fetch_page],
                                 replacer := r'\<rparr>))))"

text \<open>\<^verbatim>\<open>DeletePgImp\<close>.\<close>

definition DeletePgImp ::
  "BufferPoolManagerInstance \<Rightarrow> page_id_t \<Rightarrow> error + (bool \<times> BufferPoolManagerInstance)" where
  "DeletePgImp s pid =
     (case map_of (page_table s) pid of
        None \<Rightarrow> Inr (True, s)
      | Some delete_fid \<Rightarrow>
          if \<not> frame_valid s delete_fid then Inl UndefinedBehaviour
          else
            let delete_page = pages s ! nat delete_fid in
            if pin_count delete_page \<noteq> 0 then Inr (False, s)
            else
              Inr (True,
                   s\<lparr>disk := (if is_dirty delete_page
                              then WritePage (disk s) (page_id delete_page) (data delete_page)
                              else disk s),
                     pages := (pages s)[nat delete_fid :=
                                ResetMemory (delete_page\<lparr>page_id := INVALID_PAGE_ID,
                                                         is_dirty := False\<rparr>)],
                     free_list := free_list s @ [delete_fid],
                     page_table := AList.delete pid (page_table s)\<rparr>))"

text \<open>
  \<^verbatim>\<open>UnpinPgImp\<close>: the dirty flag is assigned before the pin count is looked at.
\<close>

definition UnpinPgImp ::
  "BufferPoolManagerInstance \<Rightarrow> page_id_t \<Rightarrow> bool \<Rightarrow>
   error + (bool \<times> BufferPoolManagerInstance)" where
  "UnpinPgImp s pid dirty =
     (case map_of (page_table s) pid of
        None \<Rightarrow> Inr (False, s)
      | Some unpin_fid \<Rightarrow>
          if \<not> frame_valid s unpin_fid then Inl UndefinedBehaviour
          else
            let unpin_page = (pages s ! nat unpin_fid)\<lparr>is_dirty := dirty\<rparr>;
                s1 = s\<lparr>pages := (pages s)[nat unpin_fid := unpin_page]\<rparr>
            in
              if pin_count unpin_page \<le> 0 then Inr (False, s1)
              else
                let unpin_page' = unpin_page\<lparr>pin_count := pin_count unpin_page - 1\<rparr>;
                    s2 = s\<lparr>pages := (pages s)[nat unpin_fid := unpin_page']\<rparr>
                in
                  if pin_count unpin_page' = 0
                  then Inr (True, s2\<lparr>replacer := Unpin (replacer s2) unpin_fid\<rparr>)
                  else Inr (True, s2))"


subsection \<open>The public operations and runs\<close>

text \<open>
  Modelled from the spec: the public operations \<^verbatim>\<open>NewPage\<close>, \<^verbatim>\<open>FetchPage\<close>,
  \<^verbatim>\<open>UnpinPage\<close>, \<^verbatim>\<open>FlushPage\<close>, \<^verbatim>\<open>FlushAllPages\<close> and \<^verbatim>\<open>DeletePage\<close> are declared
  in a header that is not among the sources; each calls the member function of the same
  name with the suffix \<^verbatim>\<open>PgImp\<close> (\<^verbatim>\<open>PgsImp\<close>). A run applies a list of operations
  in order and collects what they return; it stops at the first call that does not
  return.
\<close>

datatype bpm_op =
  NewPage
| FetchPage page_id_t
| UnpinPage page_id_t bool
| FlushPage page_id_t
| FlushAllPages
| DeletePage page_id_t

datatype bpm_ret =
  NewPage_ret "(page_id_t \<times> frame_id_t) option"
| FetchPage_ret "frame_id_t option"
| Bool_ret bool
| Unit_ret

fun apply_op ::
  "bpm_op \<Rightarrow> BufferPoolManagerInstance \<Rightarrow> error + (bpm_ret \<times> BufferPoolManagerInstance)" where
  "apply_op NewPage s =
     (case NewPgImp s of Inl e \<Rightarrow> Inl e | Inr (r, s') \<Rightarrow> Inr (NewPage_ret r, s'))"
| "apply_op (FetchPage pid) s =
     (case FetchPgImp s pid of Inl e \<Rightarrow> Inl e | Inr (r, s') \<Rightarrow> Inr (FetchPage_ret r, s'))"
| "apply_op (UnpinPage pid dirty) s =
     (case UnpinPgImp s pid dirty of Inl e \<Rightarrow> Inl e | Inr (r, s') \<Rightarrow> Inr (Bool_ret r, s'))"
| "apply_op (FlushPage pid) s =
     (case FlushPgImp s pid of Inl e \<Rightarrow> Inl e | Inr (r, s') \<Rightarrow> Inr (Bool_ret r, s'))"
| "apply_op FlushAllPages s =
     (case FlushAllPgsImp s of Inl e \<Rightarrow> Inl e | Inr s' \<Rightarrow> Inr (Unit_ret, s'))"
| "apply_op (DeletePage pid) s =
     (case DeletePgImp s pid of Inl e \<Rightarrow> Inl e | Inr (r, s') \<Rightarrow> Inr (Bool_ret r, s'))"

fun run_ops ::
  "BufferPoolManagerInstance \<Rightarrow> bpm_op list \<Rightarrow>
   error + (bpm_ret list \<times> BufferPoolManagerInstance)" where
  "run_ops s [] = Inr ([], s)"
| "run_ops s (x # xs) =
     (case apply_op x s of
        Inl e \<Rightarrow> Inl e
      | Inr (r, s') \<Rightarrow>
          (case run_ops s' xs of
             Inl e \<Rightarrow> Inl e
           | Inr (rs, s'') \<Rightarrow> Inr (r # rs, s'')))"

text \<open>
  The states of a buffer pool manager instance that some run from a freshly constructed
  instance reaches.
\<close>

inductive reachable :: "BufferPoolManagerInstance \<Rightarrow> bool" where
  reachable_init:
    "BufferPoolManagerInstance_init psize ninst idx dm = Inr s \<Longrightarrow> reachable s"
| reachable_step:
    "reachable s \<Longrightarrow> apply_op x s = Inr (r, s') \<Longrightarrow> reachable s'"

subsection \<open>Well-formed states\<close>

text \<open>
  A state is well formed when the page table has one entry per key, the replacer
  satisfies its invariant, every frame id stored in the page table, the free list or the
  replacer is an index of \<^verbatim>\<open>pages_\<close>, and no pin count is negative.
\<close>

definition bpm_wf :: "BufferPoolManagerInstance \<Rightarrow> bool" where
  "bpm_wf s \<longleftrightarrow>
     distinct (map fst (page_table s)) \<and> replacer_inv (replacer s) \<and>
     (\<forall>f \<in> set (map snd (page_table s)). frame_valid s f) \<and>
     (\<forall>f \<in> set (free_list s). frame_valid s f) \<and>
     (\<forall>f \<in> set (evictable (replacer s)). frame_valid s f) \<and>
     (\<forall>p \<in> set (pages s). 0 \<le> pin_count p)"

subsection \<open>The frames of a state, collection by collection\<close>

text \<open>
  The frame ids the page table maps to, and among them the pinned and the unpinned
  ones. The free frames are \<open>free_list\<close> and the evictable frames are
  \<open>evictable (replacer s)\<close>.
\<close>

definition page_table_frames :: "BufferPoolManagerInstance \<Rightarrow> frame_id_t list" where
  "page_table_frames s = map snd (page_table s)"

definition pinned_resident_frames :: "BufferPoolManagerInstance \<Rightarrow> frame_id_t list" where
  "pinned_resident_frames s =
     filter (\<lambda>f. 0 < pin_count (pages s ! nat f)) (page_table_frames s)"

definition unpinned_resident_frames :: "BufferPoolManagerInstance \<Rightarrow> frame_id_t list" where
  "unpinned_resident_frames s =
     filter (\<lambda>f. \<not> 0 < pin_count (pages s ! nat f)) (page_table_frames s)"

text \<open>
  The partition as the spec states it: "\<open>|page_table| + |free_list| +
  |pinned_resident_frames| + |replacer_evictable| = pool_size\<close>, with the four sets
  pairwise disjoint on frame ids".
\<close>

definition four_way_partition :: "BufferPoolManagerInstance \<Rightarrow> bool" where
  "four_way_partition s \<longleftrightarrow>
     set (page_table_frames s) \<inter> set (free_list s) = {} \<and>
     set (page_table_frames s) \<inter> set (pinned_resident_frames s) = {} \<and>
     set (page_table_frames s) \<inter> set (evictable (replacer s)) = {} \<and>
     set (free_list s) \<inter> set (pinned_resident_frames s) = {} \<and>
     set (free_list s) \<inter> set (evictable (replacer s)) = {} \<and>
     set (pinned_resident_frames s) \<inter> set (evictable (replacer s)) = {} \<and>
     length (page_table s) + length (free_list s) + length (pinned_resident_frames s) +
       length (evictable (replacer s)) = pool_size s"

text \<open>
  The invariant of the reachable states: the state is well formed, the replacer's
  capacity is the pool size, no frame is the target of two page-table entries or twice
  in the free list, no frame is both in the page table and in the free list, every
  frame in the page table holds the page id of its entry, the frames in the free list
  and the evictable frames are unpinned, and every unpinned frame in the page table is
  evictable.
\<close>

definition bpm_inv :: "BufferPoolManagerInstance \<Rightarrow> bool" where
  "bpm_inv s \<longleftrightarrow>
     bpm_wf s \<and> capacity (replacer s) = pool_size s \<and>
     distinct (page_table_frames s) \<and> distinct (free_list s) \<and>
     set (page_table_frames s) \<inter> set (free_list s) = {} \<and>
     (\<forall>e \<in> set (page_table s). page_id (pages s ! nat (snd e)) = fst e) \<and>
     (\<forall>f \<in> set (free_list s). pin_count (pages s ! nat f) = 0) \<and>
     (\<forall>f \<in> set (evictable (replacer s)). pin_count (pages s ! nat f) = 0) \<and>
     (\<forall>f \<in> set (page_table_frames s).
        pin_count (pages s ! nat f) = 0 \<longrightarrow> f \<in> set (evictable (replacer s)))"

text \<open>Every frame of the pool is in the page table or in the free list.\<close>

definition no_orphan :: "BufferPoolManagerInstance \<Rightarrow> bool" where
  "no_orphan s \<longleftrightarrow>
     (\<forall>f \<in> set (map int [0..<pool_size s]).
        f \<in> set (page_table_frames s) \<or> f \<in> set (free_list s))"

text \<open>
  The states reached by runs in which \<^verbatim>\<open>NewPage\<close> is never called while the id it is
  about to allocate is in the page table. (Such a call happens only after \<^verbatim>\<open>FetchPage\<close>
  has been asked for an id that \<^verbatim>\<open>NewPage\<close> had not handed out yet, or after
  \<open>next_page_id\<close> has wrapped around.)
\<close>

inductive reachable_fresh :: "BufferPoolManagerInstance \<Rightarrow> bool" where
  reachable_fresh_init:
    "BufferPoolManagerInstance_init psize ninst idx dm = Inr s \<Longrightarrow> reachable_fresh s"
| reachable_fresh_step:
    "reachable_fresh s \<Longrightarrow> apply_op x s = Inr (r, s') \<Longrightarrow>
     (x = NewPage \<longrightarrow> map_of (page_table s) (next_page_id s) = None) \<Longrightarrow>
     reachable_fresh s'"

subsection \<open>Example states\<close>

text \<open>
  Three states of a single-instance pool over an empty disk: \<open>ex_fresh\<close> is a pool of
  two frames as the constructor leaves it; \<open>ex_pinned\<close> is a pool of one frame after
  \<^verbatim>\<open>NewPage\<close> (page 0 in frame 0, pinned once); \<open>ex_unpinned\<close> is that pool after
  \<^verbatim>\<open>UnpinPage(0, true)\<close> (page 0 dirty, unpinned and evictable).
\<close>

definition ex_fresh :: BufferPoolManagerInstance where
  "ex_fresh =
     \<lparr>num_instances = 1, instance_index = 0, next_page_id = 0,
      pages = [Page_init, Page_init], page_table = [], free_list = [0, 1],
      replacer = LRUReplacer_init 2, disk = (\<lambda>_. [])\<rparr>"

definition ex_pinned :: BufferPoolManagerInstance where
  "ex_pinned =
     \<lparr>num_instances = 1, instance_index = 0, next_page_id = 1,
      pages = [\<lparr>page_id = 0, pin_count = 1, is_dirty = False, data = zero_data\<rparr>],
      page_table = [(0, 0)], free_list = [],
      replacer = LRUReplacer_init 1, disk = (\<lambda>_. [])\<rparr>"

definition ex_unpinned :: BufferPoolManagerInstance where
  "ex_unpinned =
     \<lparr>num_instances = 1, instance_index = 0, next_page_id = 1,
      pages = [\<lparr>page_id = 0, pin_count = 0, is_dirty = True, data = zero_data\<rparr>],
      page_table = [(0, 0)], free_list = [],
      replacer = Unpin (LRUReplacer_init 1) 0, disk = (\<lambda>_. [])\<rparr>"


section \<open>The replacer\<close>

subsection \<open>Lists of nodes and association lists\<close>

lemma remove1_filter_node:
  "distinct (map fst l) \<Longrightarrow> n \<in> set l \<Longrightarrow> remove1 n l = filter (\<lambda>m. fst m \<noteq> fst n) l"
proof (induction l)
  case Nil
  then show ?case by simp
next
  case (Cons a l)
  show ?case
  proof (cases "a = n")
    case True
    with Cons.prems have "\<forall>m\<in>set l. fst m \<noteq> fst n" by (auto simp: image_iff)
    then have "filter (\<lambda>m. fst m \<noteq> fst n) l = l" by (simp add: filter_id_conv)
    with True show ?thesis by simp
  next
    case False
    with Cons.prems have "n \<in> set l" and "fst a \<noteq> fst n" by (auto simp: image_iff)
    with Cons show ?thesis using False by simp
  qed
qed

lemma find_node:
  "(it, f) \<in> set l \<Longrightarrow> \<exists>n. find (\<lambda>n. fst n = it) l = Some n \<and> n \<in> set l \<and> fst n = it"
  by (induction l) auto

lemma set_alist_delete: "set (AList.delete k al) = {e \<in> set al. fst e \<noteq> k}"
  by (induction al) auto

lemma update_new_key: "k \<notin> fst ` set al \<Longrightarrow> AList.update k v al = al @ [(k, v)]"
  by (induction al) auto

lemma image_restrict: "{e \<in> f ` A. P e} = f ` {n \<in> A. P (f n)}"
  by blast

lemma swap_image_restrict:
  "{e \<in> (\<lambda>n. (snd n, fst n)) ` A. fst e \<noteq> k} =
   (\<lambda>n. (snd n, fst n)) ` {n \<in> A. snd n \<noteq> k}"
  by (simp add: image_restrict)

lemma inj_on_swap: "inj_on (\<lambda>n. (snd n, fst n)) A"
  by (rule inj_onI) (simp add: prod_eq_iff)

lemma set_butlast_distinct:
  assumes "distinct (map snd l)" "l \<noteq> []"
  shows "set (butlast l) = {n \<in> set l. snd n \<noteq> snd (last l)}"
proof -
  from assms(2) have l: "l = butlast l @ [last l]" by simp
  with assms(1) have "distinct (map snd (butlast l @ [last l]))" by simp
  then have "snd (last l) \<notin> snd ` set (butlast l)" by simp
  then have notin: "snd n \<noteq> snd (last l)" if "n \<in> set (butlast l)" for n
    using that by (metis imageI)
  have "set (butlast l @ [last l]) = insert (last l) (set (butlast l))" by simp
  then have eq: "set l = insert (last l) (set (butlast l))"
    by (simp only: append_butlast_last_id[OF assms(2)])
  show ?thesis
  proof (rule set_eqI)
    fix n
    show "n \<in> set (butlast l) \<longleftrightarrow> n \<in> {n \<in> set l. snd n \<noteq> snd (last l)}"
    proof
      assume "n \<in> set (butlast l)"
      with notin[of n] eq show "n \<in> {n \<in> set l. snd n \<noteq> snd (last l)}" by simp
    next
      assume "n \<in> {n \<in> set l. snd n \<noteq> snd (last l)}"
      then have n: "n \<in> set l" "snd n \<noteq> snd (last l)" by simp_all
      from n(2) have "n \<noteq> last l" by (rule contrapos_nn) simp
      with n(1) eq show "n \<in> set (butlast l)" by simp
    qed
  qed
qed

lemma map_snd_filter_removeAll:
  "map snd (filter (\<lambda>n. snd n \<noteq> f) l) = removeAll f (map snd l)"
  by (induction l) auto

lemma fresh_node_new: "fresh_node l \<notin> fst ` set l"
proof
  assume "fresh_node l \<in> fst ` set l"
  then have "fresh_node l \<in> set (0 # map fst l)" by simp
  then have "fresh_node l \<le> Max (set (0 # map fst l))" by (intro Max_ge) auto
  then show False by (simp add: fresh_node_def Max.set_eq_fold del: set_simps)
qed

subsection \<open>The invariant and the three operations\<close>

lemma replacer_invD:
  assumes "replacer_inv r"
  shows "distinct (map fst (lru_list r))" and "distinct (map snd (lru_list r))"
    and "distinct (map fst (lru_map r))"
    and "set (lru_map r) = (\<lambda>n. (snd n, fst n)) ` set (lru_list r)"
  using assms by (simp_all add: replacer_inv_def)

lemma replacer_inv_init: "replacer_inv (LRUReplacer_init n)"
  by (simp add: replacer_inv_def LRUReplacer_init_def)

lemma replacer_inv_length:
  assumes "replacer_inv r"
  shows "length (lru_map r) = length (lru_list r)"
proof -
  from replacer_invD(3)[OF assms] have dm: "distinct (lru_map r)"
    by (simp add: distinct_map)
  from replacer_invD(1)[OF assms] have dl: "distinct (lru_list r)"
    by (simp add: distinct_map)
  have "card ((\<lambda>n. (snd n, fst n)) ` set (lru_list r)) = card (set (lru_list r))"
    by (rule card_image) (rule inj_on_swap)
  then have "card (set (lru_map r)) = card (set (lru_list r))"
    by (simp only: replacer_invD(4)[OF assms])
  then show ?thesis by (simp only: distinct_card[OF dm] distinct_card[OF dl])
qed

lemma replacer_inv_keys:
  assumes "replacer_inv r"
  shows "fst ` set (lru_map r) = set (evictable r)"
  by (simp add: replacer_invD(4)[OF assms] evictable_def image_image)

lemma replacer_inv_map_of_None:
  "replacer_inv r \<Longrightarrow> map_of (lru_map r) f = None \<longleftrightarrow> f \<notin> set (evictable r)"
  by (simp add: map_of_eq_None_iff replacer_inv_keys)

lemma replacer_inv_distinct: "replacer_inv r \<Longrightarrow> distinct (evictable r)"
  by (simp add: replacer_inv_def evictable_def)

lemma inv_matches:
  assumes "replacer_inv r"
  shows "map_matches_list r"
proof -
  have "set (map fst (lru_map r)) = set (map snd (lru_list r))"
    using replacer_inv_keys[OF assms] by (simp add: evictable_def)
  moreover have "(snd e, fst e) \<in> set (lru_list r)" if "e \<in> set (lru_map r)" for e
    using that by (auto simp: replacer_invD(4)[OF assms])
  ultimately show ?thesis
    using replacer_invD(1)[OF assms] by (simp add: map_matches_list_def)
qed

lemma Pin_is_erase:
  assumes "map_matches_list r"
  shows "Pin r f = Inr (Pin_erase r f)"
proof (cases "map_of (lru_map r) f")
  case None
  then show ?thesis by (simp add: Pin_def Pin_erase_def)
next
  case (Some it)
  then have "(f, it) \<in> set (lru_map r)" by (rule map_of_SomeD)
  with assms have "(it, f) \<in> set (lru_list r)" by (auto simp: map_matches_list_def)
  from find_node[OF this] obtain n where
    n: "find (\<lambda>n. fst n = it) (lru_list r) = Some n" "n \<in> set (lru_list r)" "fst n = it"
    by blast
  from assms have "distinct (map fst (lru_list r))" by (simp add: map_matches_list_def)
  from remove1_filter_node[OF this n(2)] n(3)
  have "remove1 n (lru_list r) = filter (\<lambda>m. fst m \<noteq> it) (lru_list r)" by simp
  with Some n(1) show ?thesis by (simp add: Pin_def Pin_erase_def splice_front_def)
qed

lemma Victim_inv:
  assumes "replacer_inv r"
  shows "(Victim r = None \<longleftrightarrow> evictable r = []) \<and>
         (evictable r \<noteq> [] \<longrightarrow>
            (\<exists>r'. Victim r = Some (last (evictable r), r') \<and>
                  evictable r' = butlast (evictable r) \<and> capacity r' = capacity r \<and>
                  replacer_inv r'))"
proof (cases "lru_list r = []")
  case True
  then show ?thesis by (simp add: Victim_def evictable_def)
next
  case False
  with replacer_inv_length[OF assms] have ne: "lru_map r \<noteq> []" by auto
  let ?v = "snd (last (lru_list r))"
  let ?r' = "r\<lparr>lru_list := butlast (lru_list r), lru_map := AList.delete ?v (lru_map r)\<rparr>"
  from False ne have v: "Victim r = Some (?v, ?r')" by (simp add: Victim_def Let_def)
  from False have lst: "last (evictable r) = ?v" by (simp add: evictable_def last_map)
  have ev: "evictable ?r' = butlast (evictable r)" by (simp add: evictable_def map_butlast)
  note d = replacer_invD(2)[OF assms]
  have "set (AList.delete ?v (lru_map r)) =
      {e \<in> (\<lambda>n. (snd n, fst n)) ` set (lru_list r). fst e \<noteq> ?v}"
    by (simp add: set_alist_delete replacer_invD(4)[OF assms])
  also have "\<dots> = (\<lambda>n. (snd n, fst n)) ` set (butlast (lru_list r))"
    by (simp only: swap_image_restrict set_butlast_distinct[OF d False])
  finally have s: "set (lru_map ?r') = (\<lambda>n. (snd n, fst n)) ` set (lru_list ?r')" by simp
  from replacer_invD(1-3)[OF assms]
  have "distinct (map fst (lru_list ?r'))" "distinct (map snd (lru_list ?r'))"
    "distinct (map fst (lru_map ?r'))"
    by (simp_all add: map_butlast distinct_butlast distinct_delete)
  with s have "replacer_inv ?r'" unfolding replacer_inv_def by blast
  with v lst ev False show ?thesis by (simp add: evictable_def)
qed

lemma Unpin_inv:
  assumes "replacer_inv r"
  shows "replacer_inv (Unpin r f) \<and> capacity (Unpin r f) = capacity r \<and>
         evictable (Unpin r f) =
           (if f \<in> set (evictable r) \<or> length (evictable r) = capacity r then evictable r
            else f # evictable r)"
proof (cases "f \<in> set (evictable r) \<or> length (evictable r) = capacity r")
  case True
  with replacer_inv_map_of_None[OF assms, of f] replacer_inv_length[OF assms]
  have "Unpin r f = r"
    by (auto simp: Unpin_def evictable_def)
  with True assms show ?thesis by simp
next
  case False
  let ?n = "fresh_node (lru_list r)"
  let ?r' = "r\<lparr>lru_list := (?n, f) # lru_list r, lru_map := AList.update f ?n (lru_map r)\<rparr>"
  from False replacer_inv_map_of_None[OF assms, of f] replacer_inv_length[OF assms]
  have u: "Unpin r f = ?r'"
    by (auto simp: Unpin_def evictable_def Let_def)
  from False have nk: "f \<notin> fst ` set (lru_map r)" by (simp add: replacer_inv_keys[OF assms])
  from False have nf: "f \<notin> snd ` set (lru_list r)" by (simp add: evictable_def)
  from replacer_invD[OF assms] nk nf fresh_node_new[of "lru_list r"] have "replacer_inv ?r'"
    by (simp add: replacer_inv_def update_new_key distinct_update)
  with u False show ?thesis by (simp add: evictable_def)
qed

lemma Pin_erase_inv:
  assumes "replacer_inv r"
  shows "replacer_inv (Pin_erase r f) \<and> capacity (Pin_erase r f) = capacity r \<and>
         evictable (Pin_erase r f) = removeAll f (evictable r)"
proof (cases "map_of (lru_map r) f")
  case None
  then have "f \<notin> set (evictable r)" using replacer_inv_map_of_None[OF assms] by simp
  with None assms show ?thesis by (simp add: Pin_erase_def)
next
  case (Some it)
  let ?r' = "r\<lparr>lru_list := filter (\<lambda>n. fst n \<noteq> it) (lru_list r),
                lru_map := AList.delete f (lru_map r)\<rparr>"
  from Some have p: "Pin_erase r f = ?r'" by (simp add: Pin_erase_def)
  from Some have "(f, it) \<in> set (lru_map r)" by (rule map_of_SomeD)
  then have mem: "(it, f) \<in> set (lru_list r)"
    by (simp add: replacer_invD(4)[OF assms] image_iff prod_eq_iff) (metis prod.collapse)
  note d1 = replacer_invD(1)[OF assms] and d2 = replacer_invD(2)[OF assms]
  from d1 d2 have i1: "inj_on fst (set (lru_list r))" and i2: "inj_on snd (set (lru_list r))"
    by (simp_all add: distinct_map)
  have same: "fst n \<noteq> it \<longleftrightarrow> snd n \<noteq> f" if "n \<in> set (lru_list r)" for n
  proof (cases n)
    case (Pair a b)
    with inj_onD[OF i1 _ that mem] inj_onD[OF i2 _ that mem] show ?thesis by auto
  qed
  then have fl: "filter (\<lambda>n. fst n \<noteq> it) (lru_list r) = filter (\<lambda>n. snd n \<noteq> f) (lru_list r)"
    by (intro filter_cong) auto
  have ev: "evictable ?r' = removeAll f (evictable r)"
    by (simp add: evictable_def fl map_snd_filter_removeAll)
  have "set (lru_map ?r') = (\<lambda>n. (snd n, fst n)) ` set (lru_list ?r')"
    by (simp add: fl set_alist_delete replacer_invD(4)[OF assms] swap_image_restrict)
  moreover from d1 d2 replacer_invD(3)[OF assms] have "distinct (map fst (lru_list ?r'))"
    "distinct (map snd (lru_list ?r'))" "distinct (map fst (lru_map ?r'))"
    by (simp_all add: distinct_map_filter distinct_delete)
  ultimately have "replacer_inv ?r'" unfolding replacer_inv_def by blast
  with p ev show ?thesis by simp
qed

lemma Pin_inv:
  assumes "replacer_inv r"
  shows "\<exists>r'. Pin r f = Inr r' \<and> replacer_inv r' \<and> capacity r' = capacity r \<and>
              evictable r' = removeAll f (evictable r)"
  using Pin_is_erase[OF inv_matches[OF assms], of f] Pin_erase_inv[OF assms, of f] by simp

subsection \<open>Claims about the replacer\<close>

text \<open>
  C4, as amended. For a replacer that satisfies its invariant: \<^verbatim>\<open>Victim\<close> returns none
  exactly when the evictable list is empty, and otherwise removes and returns the back
  of the list, the least recently unpinned frame. \<^verbatim>\<open>Unpin\<close> of a frame that is already
  listed changes nothing; \<^verbatim>\<open>Unpin\<close> of a frame that is not listed puts it at the front
  unless the replacer already holds \<open>capacity\<close> frames, and then it changes nothing.
  With capacity 7, after \<^verbatim>\<open>Unpin(1)\<close> ... \<^verbatim>\<open>Unpin(6)\<close> and \<^verbatim>\<open>Unpin(1)\<close>, \<^verbatim>\<open>Victim\<close>
  returns 1, and after \<^verbatim>\<open>Pin(3)\<close> and \<^verbatim>\<open>Pin(4)\<close> the next three calls of \<^verbatim>\<open>Victim\<close>
  return 2, 5 and 6.
\<close>

theorem LRUReplacer_Victim_Unpin:
  assumes "replacer_inv r"
  shows "(Victim r = None \<longleftrightarrow> evictable r = []) \<and>
         (evictable r \<noteq> [] \<longrightarrow>
            (\<exists>r'. Victim r = Some (last (evictable r), r') \<and>
                  evictable r' = butlast (evictable r))) \<and>
         (f \<in> set (evictable r) \<longrightarrow> Unpin r f = r) \<and>
         (f \<notin> set (evictable r) \<and> length (evictable r) \<noteq> capacity r \<longrightarrow>
            evictable (Unpin r f) = f # evictable r) \<and>
         (length (evictable r) = capacity r \<longrightarrow> Unpin r f = r) \<and>
         (\<exists>r1 r2 r3 r4 r5 r6.
            Victim (fold (\<lambda>f r. Unpin r f) [1, 2, 3, 4, 5, 6, 1] (LRUReplacer_init 7))
              = Some (1, r1) \<and>
            Pin r1 3 = Inr r2 \<and> Pin r2 4 = Inr r3 \<and>
            Victim r3 = Some (2, r4) \<and> Victim r4 = Some (5, r5) \<and>
            Victim r5 = Some (6, r6))"
proof -
  have victim: "(Victim r = None \<longleftrightarrow> evictable r = []) \<and>
         (evictable r \<noteq> [] \<longrightarrow>
            (\<exists>r'. Victim r = Some (last (evictable r), r') \<and>
                  evictable r' = butlast (evictable r)))"
    using Victim_inv[OF assms] by blast
  have present: "Unpin r f = r" if "f \<in> set (evictable r)"
    using that replacer_inv_map_of_None[OF assms, of f] by (simp add: Unpin_def)
  have full: "Unpin r f = r" if "length (evictable r) = capacity r"
    using that replacer_inv_length[OF assms] by (simp add: Unpin_def evictable_def)
  have front: "evictable (Unpin r f) = f # evictable r"
    if "f \<notin> set (evictable r) \<and> length (evictable r) \<noteq> capacity r"
    using that Unpin_inv[OF assms, of f] by simp
  have scenario: "\<exists>r1 r2 r3 r4 r5 r6.
            Victim (fold (\<lambda>f r. Unpin r f) [1, 2, 3, 4, 5, 6, 1] (LRUReplacer_init 7))
              = Some (1, r1) \<and>
            Pin r1 3 = Inr r2 \<and> Pin r2 4 = Inr r3 \<and>
            Victim r3 = Some (2, r4) \<and> Victim r4 = Some (5, r5) \<and>
            Victim r5 = Some (6, r6)"
    by (simp add: Unpin_def Victim_def Pin_def splice_front_def LRUReplacer_init_def
        fresh_node_def Let_def)
  from victim present full front scenario show ?thesis by blast
qed

theorem LRUReplacer_Victim_Unpin_witness:
  "replacer_inv (Unpin (Unpin (LRUReplacer_init 3) 1) 2) \<and>
   evictable (Unpin (Unpin (LRUReplacer_init 3) 1) 2) = [2, 1] \<and>
   (\<exists>r'. Victim (Unpin (Unpin (LRUReplacer_init 3) 1) 2) = Some (1, r') \<and> evictable r' = [2]) \<and>
   Unpin (Unpin (Unpin (LRUReplacer_init 3) 1) 2) 1 = Unpin (Unpin (LRUReplacer_init 3) 1) 2 \<and>
   evictable (Unpin (Unpin (Unpin (LRUReplacer_init 3) 1) 2) 5) = [5, 2, 1]"
proof -
  let ?r = "Unpin (Unpin (LRUReplacer_init 3) 1) 2"
  have inv: "replacer_inv ?r"
    by (simp add: Unpin_inv replacer_inv_init)
  have ev: "evictable ?r = [2, 1]"
    by (simp add: Unpin_def LRUReplacer_init_def fresh_node_def Let_def evictable_def)
  have cap: "capacity ?r = 3"
    by (simp add: Unpin_def LRUReplacer_init_def fresh_node_def Let_def)
  from LRUReplacer_Victim_Unpin[OF inv, of 1] LRUReplacer_Victim_Unpin[OF inv, of 5] inv ev cap
  show ?thesis by simp
qed

theorem Unpin_at_capacity_counterexample:
  "replacer_inv (Unpin (LRUReplacer_init 1) 1) \<and>
   2 \<notin> set (evictable (Unpin (LRUReplacer_init 1) 1)) \<and>
   evictable (Unpin (Unpin (LRUReplacer_init 1) 1) 2) = [1] \<and>
   evictable (Unpin (Unpin (LRUReplacer_init 1) 1) 2) \<noteq>
     2 # evictable (Unpin (LRUReplacer_init 1) 1)"
  by (simp add: Unpin_def LRUReplacer_init_def fresh_node_def Let_def evictable_def
      replacer_inv_def)

text \<open>
  C9. For every replacer in which the map's keys are the listed frames and each key is
  mapped to its own node, \<^verbatim>\<open>Pin\<close> as the source has it (look the iterator up, splice
  its node to the front, pop the front, erase the key) is defined and gives the list
  and the map that erasing the node directly from the list and the key from the map
  gives.
\<close>

theorem Pin_splice_pop_is_erase:
  assumes "map_matches_list r"
  shows "Pin r f = Inr (Pin_erase r f)"
  using assms by (rule Pin_is_erase)

theorem Pin_splice_pop_is_erase_witness:
  "map_matches_list (Unpin (Unpin (Unpin (LRUReplacer_init 7) 1) 2) 3) \<and>
   Pin (Unpin (Unpin (Unpin (LRUReplacer_init 7) 1) 2) 3) 2 =
     Inr (Pin_erase (Unpin (Unpin (Unpin (LRUReplacer_init 7) 1) 2) 3) 2) \<and>
   evictable (Pin_erase (Unpin (Unpin (Unpin (LRUReplacer_init 7) 1) 2) 3) 2) = [3, 1]"
proof -
  let ?r = "Unpin (Unpin (Unpin (LRUReplacer_init 7) 1) 2) 3"
  have m: "map_matches_list ?r"
    by (intro inv_matches) (simp add: Unpin_inv replacer_inv_init)
  have "evictable (Pin_erase ?r 2) = [3, 1]"
    by (simp add: Pin_erase_def Unpin_def LRUReplacer_init_def fresh_node_def Let_def
        evictable_def)
  with m Pin_splice_pop_is_erase[OF m, of 2] show ?thesis by simp
qed

section \<open>The buffer pool manager instance\<close>

subsection \<open>Well-formed states\<close>

lemma bpm_wf_lookup:
  "bpm_wf s \<Longrightarrow> map_of (page_table s) pid = Some f \<Longrightarrow> frame_valid s f"
  by (auto simp: bpm_wf_def dest!: map_of_SomeD intro: rev_image_eqI)

lemma bpm_wfD:
  assumes "bpm_wf s"
  shows "distinct (map fst (page_table s))" and "replacer_inv (replacer s)"
    and "\<And>f. f \<in> set (map snd (page_table s)) \<Longrightarrow> frame_valid s f"
    and "\<And>f. f \<in> set (free_list s) \<Longrightarrow> frame_valid s f"
    and "\<And>f. f \<in> set (evictable (replacer s)) \<Longrightarrow> frame_valid s f"
    and "\<And>p. p \<in> set (pages s) \<Longrightarrow> 0 \<le> pin_count p"
  using assms by (auto simp: bpm_wf_def)

lemma frame_valid_not_sentinel: "frame_valid s f \<Longrightarrow> f \<noteq> - 1"
  by (auto simp: frame_valid_def)

lemma is_all_spinned_fold:
  "fold (\<lambda>p acc. if pin_count p = 0 then False else acc) ps b \<longleftrightarrow>
   b \<and> (\<forall>p \<in> set ps. pin_count p \<noteq> 0)"
  by (induction ps arbitrary: b) auto

lemma is_all_spinned_iff: "is_all_spinned ps \<longleftrightarrow> (\<forall>p \<in> set ps. pin_count p \<noteq> 0)"
  by (simp add: is_all_spinned_def is_all_spinned_fold)

lemma all_pinned_iff:
  assumes "bpm_wf s"
  shows "is_all_spinned (pages s) \<longleftrightarrow> (\<forall>p \<in> set (pages s). 0 < pin_count p)"
  using bpm_wfD(6)[OF assms] by (fastforce simp: is_all_spinned_iff)

subsection \<open>Choosing a frame\<close>

lemma pick_frame_free:
  "free_list s = f # rest \<Longrightarrow> pick_frame s = Inr (f, s\<lparr>free_list := rest\<rparr>)"
  by (simp add: pick_frame_def)

lemma pick_frame_all_pinned:
  "free_list s = [] \<Longrightarrow> is_all_spinned (pages s) \<Longrightarrow> pick_frame s = Inr (- 1, s)"
  by (simp add: pick_frame_def)

lemma pick_frame_declined:
  "free_list s = [] \<Longrightarrow> Victim (replacer s) = None \<Longrightarrow> pick_frame s = Inr (- 1, s)"
  by (simp add: pick_frame_def)

lemma Victim_Some_last:
  assumes "replacer_inv r" "Victim r = Some (v, r')"
  shows "evictable r \<noteq> [] \<and> v = last (evictable r) \<and> evictable r' = butlast (evictable r) \<and>
         capacity r' = capacity r \<and> replacer_inv r' \<and> v \<notin> set (evictable r')"
proof -
  from Victim_inv[OF assms(1)] assms(2) have ne: "evictable r \<noteq> []" by auto
  with Victim_inv[OF assms(1)] assms(2)
  have *: "v = last (evictable r)" "evictable r' = butlast (evictable r)"
    "capacity r' = capacity r" "replacer_inv r'"
    by auto
  from ne have "evictable r = butlast (evictable r) @ [last (evictable r)]" by simp
  with replacer_inv_distinct[OF assms(1)]
  have "distinct (butlast (evictable r) @ [last (evictable r)])" by simp
  then have "last (evictable r) \<notin> set (butlast (evictable r))" by simp
  with * ne show ?thesis by simp
qed

lemma pick_frame_victim:
  assumes "bpm_wf s" "free_list s = []" "\<not> is_all_spinned (pages s)"
    "Victim (replacer s) = Some (v, r')"
  shows "pick_frame s =
     Inr (v, s\<lparr>replacer := r',
               disk := (if is_dirty (pages s ! nat v)
                        then WritePage (disk s) (page_id (pages s ! nat v)) (data (pages s ! nat v))
                        else disk s),
               page_table := AList.delete (page_id (pages s ! nat v)) (page_table s)\<rparr>)"
proof -
  from Victim_Some_last[OF bpm_wfD(2)[OF assms(1)] assms(4)]
  have "v \<in> set (evictable (replacer s))" by (metis last_in_set)
  then have "frame_valid s v" by (rule bpm_wfD(5)[OF assms(1)])
  with assms(2-4) show ?thesis by (simp add: pick_frame_def Let_def)
qed

lemma AllocatePage_Inr:
  "AllocatePage s = Inr (np, s1) \<Longrightarrow>
     np = next_page_id s \<and> s1 = s\<lparr>next_page_id := next_page_id s + num_instances s\<rparr> \<and>
     num_instances s \<noteq> 0 \<and> np mod num_instances s = instance_index s"
  by (auto simp: AllocatePage_def ValidatePageId_def Let_def split: if_splits)

lemma bpm_wf_next_page_id [simp]: "bpm_wf (s\<lparr>next_page_id := n\<rparr>) = bpm_wf s"
  by (simp add: bpm_wf_def frame_valid_def)


subsection \<open>The results of NewPgImp and FetchPgImp\<close>

lemma bpm_wf_Pin:
  assumes "bpm_wf s"
  shows "Pin (replacer s) f = Inr (Pin_erase (replacer s) f)"
  by (rule Pin_is_erase[OF inv_matches[OF bpm_wfD(2)[OF assms]]])

lemma NewPgImp_Some:
  assumes "bpm_wf s2" "AllocatePage s = Inr (np, s1)" "pick_frame s1 = Inr (f, s2)"
    "frame_valid s2 f"
  shows "NewPgImp s =
    Inr (Some (np, f),
         s2\<lparr>page_table := AList.update np f (page_table s2),
            pages := (pages s2)[nat f :=
                       ResetMemory ((pages s2 ! nat f)\<lparr>page_id := np, is_dirty := False,
                          pin_count := pin_count (pages s2 ! nat f) + 1\<rparr>)],
            replacer := Pin_erase (replacer s2) f\<rparr>)"
  using assms(2-4) frame_valid_not_sentinel[OF assms(4)] bpm_wf_Pin[OF assms(1), of f]
  by (simp add: NewPgImp_def Let_def)

lemma FetchPgImp_miss_Some:
  assumes "bpm_wf s2" "map_of (page_table s) pid = None" "pick_frame s = Inr (f, s2)"
    "frame_valid s2 f"
  shows "FetchPgImp s pid =
    Inr (Some f,
         s2\<lparr>page_table := AList.update pid f (page_table s2),
            pages := (pages s2)[nat f :=
                       (pages s2 ! nat f)\<lparr>page_id := pid, is_dirty := False,
                          data := ReadPage (disk s2) pid,
                          pin_count := pin_count (pages s2 ! nat f) + 1\<rparr>],
            replacer := Pin_erase (replacer s2) f\<rparr>)"
  using assms(2-4) frame_valid_not_sentinel[OF assms(4)] bpm_wf_Pin[OF assms(1), of f]
  by (simp add: FetchPgImp_def Let_def)

lemma FetchPgImp_miss_None:
  assumes "map_of (page_table s) pid = None" "pick_frame s = Inr (- 1, s2)"
  shows "FetchPgImp s pid = Inr (None, s2)"
  using assms by (simp add: FetchPgImp_def)

lemma NewPgImp_fail:
  assumes "AllocatePage s = Inr (np, s1)" "pick_frame s1 = Inr (- 1, s2)"
  shows "NewPgImp s = Inr (None, s2)"
  using assms by (simp add: NewPgImp_def)

lemma FetchPgImp_hit:
  assumes "bpm_wf s" "map_of (page_table s) pid = Some f"
  shows "FetchPgImp s pid =
    Inr (Some f,
         s\<lparr>pages := (pages s)[nat f :=
                      (pages s ! nat f)\<lparr>pin_count := pin_count (pages s ! nat f) + 1\<rparr>],
           replacer := Pin_erase (replacer s) f\<rparr>)"
  using assms(2) bpm_wf_lookup[OF assms] bpm_wf_Pin[OF assms(1), of f]
  by (simp add: FetchPgImp_def Let_def)

lemma bpm_wf_free_list_tl:
  assumes "bpm_wf s" "free_list s = f # rest"
  shows "bpm_wf (s\<lparr>free_list := rest\<rparr>)" and "frame_valid (s\<lparr>free_list := rest\<rparr>) f"
  using assms by (auto simp: bpm_wf_def frame_valid_def)

lemma bpm_wf_victim:
  assumes "bpm_wf s" "Victim (replacer s) = Some (v, r')"
  shows "bpm_wf (s\<lparr>replacer := r', disk := d, page_table := AList.delete k (page_table s)\<rparr>)"
    and "frame_valid (s\<lparr>replacer := r', disk := d, page_table := AList.delete k (page_table s)\<rparr>) v"
proof -
  note V = Victim_Some_last[OF bpm_wfD(2)[OF assms(1)] assms(2)]
  let ?s = "s\<lparr>replacer := r', disk := d, page_table := AList.delete k (page_table s)\<rparr>"
  have fv: "frame_valid ?s g = frame_valid s g" for g by (simp add: frame_valid_def)
  from V have "v \<in> set (evictable (replacer s))" by (metis last_in_set)
  then show "frame_valid ?s v" using bpm_wfD(5)[OF assms(1)] by (simp add: fv)
  have 1: "distinct (map fst (page_table ?s))"
    using bpm_wfD(1)[OF assms(1)] by (simp add: distinct_delete)
  have 2: "replacer_inv (replacer ?s)" using V by simp
  have 3: "frame_valid ?s g" if "g \<in> set (map snd (page_table ?s))" for g
  proof -
    from that have "g \<in> set (map snd (page_table s))" by (auto simp: set_alist_delete)
    then show ?thesis using bpm_wfD(3)[OF assms(1)] by (simp add: fv)
  qed
  have 4: "frame_valid ?s g" if "g \<in> set (free_list ?s)" for g
    using that bpm_wfD(4)[OF assms(1)] by (simp add: fv)
  have 5: "frame_valid ?s g" if "g \<in> set (evictable (replacer ?s))" for g
  proof -
    from that V have "g \<in> set (evictable (replacer s))" by (auto dest: in_set_butlastD)
    then show ?thesis using bpm_wfD(5)[OF assms(1)] by (simp add: fv)
  qed
  have 6: "0 \<le> pin_count p" if "p \<in> set (pages ?s)" for p
    using that bpm_wfD(6)[OF assms(1)] by simp
  from 1 2 3 4 5 6 show "bpm_wf ?s" unfolding bpm_wf_def by blast
qed

subsection \<open>The example states\<close>

lemma ex_fresh_init: "BufferPoolManagerInstance_init 2 1 0 (\<lambda>_. []) = Inr ex_fresh"
  by (simp add: BufferPoolManagerInstance_init_def ex_fresh_def numeral_2_eq_2)

lemma ex_pinned_init: "BufferPoolManagerInstance_init 1 1 0 (\<lambda>_. []) =
   Inr (ex_pinned\<lparr>next_page_id := 0, pages := [Page_init], page_table := [], free_list := [0]\<rparr>)"
  by (simp add: BufferPoolManagerInstance_init_def ex_pinned_def)

lemma ex_pinned_run:
  "apply_op NewPage (ex_pinned\<lparr>next_page_id := 0, pages := [Page_init], page_table := [], free_list := [0]\<rparr>)
    = Inr (NewPage_ret (Some (0, 0)), ex_pinned)"
  by (simp add: ex_pinned_def NewPgImp_def AllocatePage_def ValidatePageId_def pick_frame_def
      frame_valid_def Pin_def LRUReplacer_init_def Page_init_def ResetMemory_def Let_def)

lemma ex_unpinned_run:
  "apply_op (UnpinPage 0 True) ex_pinned = Inr (Bool_ret True, ex_unpinned)"
  by (simp add: ex_pinned_def ex_unpinned_def UnpinPgImp_def frame_valid_def Let_def)

lemma ex_reachable: "reachable ex_fresh" "reachable ex_pinned" "reachable ex_unpinned"
proof -
  show "reachable ex_fresh" by (rule reachable_init[OF ex_fresh_init])
  show p: "reachable ex_pinned"
    by (rule reachable_step[OF reachable_init[OF ex_pinned_init] ex_pinned_run])
  show "reachable ex_unpinned" by (rule reachable_step[OF p ex_unpinned_run])
qed

lemma ex_wf: "bpm_wf ex_fresh" "bpm_wf ex_pinned" "bpm_wf ex_unpinned"
  by (simp_all add: bpm_wf_def ex_fresh_def ex_pinned_def ex_unpinned_def frame_valid_def
      replacer_inv_init Unpin_inv Page_init_def)
     (simp_all add: evictable_def LRUReplacer_init_def Unpin_def Let_def)

subsection \<open>Flushing, deleting and a failed allocation\<close>

lemma FlushPgImp_resident:
  assumes "bpm_wf s" "map_of (page_table s) pid = Some f"
  shows "FlushPgImp s pid =
     Inr (True, s\<lparr>disk := WritePage (disk s) (page_id (pages s ! nat f)) (data (pages s ! nat f)),
                 pages := (pages s)[nat f := (pages s ! nat f)\<lparr>is_dirty := False\<rparr>]\<rparr>)"
  using assms bpm_wf_lookup[OF assms] by (simp add: FlushPgImp_def Let_def)

text \<open>
  C7. In a well-formed state, \<^verbatim>\<open>FlushPage(p)\<close> returns false exactly when \<open>p\<close> is not in
  the page table, and then changes nothing. When \<open>p\<close> is in the page table it returns
  true, the disk holds the frame's data under the frame's page id, and the frame's
  \<open>is_dirty\<close> is false; the frame's pin count, page id and data, every other frame, the
  page table, the free list, the replacer and the allocator's counter are unchanged.
\<close>

theorem FlushPgImp_effect:
  assumes "bpm_wf s"
  shows "(map_of (page_table s) pid = None \<longrightarrow> FlushPgImp s pid = Inr (False, s)) \<and>
         (\<forall>f. map_of (page_table s) pid = Some f \<longrightarrow>
            (\<exists>s'. FlushPgImp s pid = Inr (True, s') \<and>
              disk s' = (disk s)(page_id (pages s ! nat f) := data (pages s ! nat f)) \<and>
              is_dirty (pages s' ! nat f) = False \<and>
              pin_count (pages s' ! nat f) = pin_count (pages s ! nat f) \<and>
              page_id (pages s' ! nat f) = page_id (pages s ! nat f) \<and>
              data (pages s' ! nat f) = data (pages s ! nat f) \<and>
              length (pages s') = length (pages s) \<and>
              (\<forall>i. i \<noteq> nat f \<longrightarrow> pages s' ! i = pages s ! i) \<and>
              page_table s' = page_table s \<and> free_list s' = free_list s \<and>
              replacer s' = replacer s \<and> next_page_id s' = next_page_id s))"
proof (cases "map_of (page_table s) pid")
  case None
  then show ?thesis by (simp add: FlushPgImp_def)
next
  case (Some f)
  from bpm_wf_lookup[OF assms Some] have "nat f < length (pages s)"
    by (simp add: frame_valid_def)
  with Some FlushPgImp_resident[OF assms Some] show ?thesis
    by (simp add: WritePage_def)
qed

theorem FlushPgImp_effect_witness:
  "bpm_wf ex_unpinned \<and> map_of (page_table ex_unpinned) 0 = Some 0 \<and>
   FlushPgImp ex_unpinned 7 = Inr (False, ex_unpinned) \<and>
   (\<exists>s'. FlushPgImp ex_unpinned 0 = Inr (True, s') \<and> disk s' 0 = zero_data \<and>
         is_dirty (pages s' ! 0) = False \<and> pin_count (pages s' ! 0) = 0 \<and>
         page_table s' = [(0, 0)] \<and> replacer s' = replacer ex_unpinned)"
proof -
  have m: "map_of (page_table ex_unpinned) 0 = Some 0" "map_of (page_table ex_unpinned) 7 = None"
    by (simp_all add: ex_unpinned_def)
  have v: "disk ex_unpinned = (\<lambda>_. [])" "pages ex_unpinned ! 0 =
      \<lparr>page_id = 0, pin_count = 0, is_dirty = True, data = zero_data\<rparr>"
    "page_table ex_unpinned = [(0, 0)]"
    by (simp_all add: ex_unpinned_def)
  from FlushPgImp_effect[OF ex_wf(3), of 0] FlushPgImp_effect[OF ex_wf(3), of 7] m v ex_wf(3)
  show ?thesis by auto
qed

lemma DeletePgImp_unpinned:
  assumes "bpm_wf s" "map_of (page_table s) pid = Some f" "pin_count (pages s ! nat f) = 0"
  shows "DeletePgImp s pid =
     Inr (True,
          s\<lparr>disk := (if is_dirty (pages s ! nat f)
                     then WritePage (disk s) (page_id (pages s ! nat f)) (data (pages s ! nat f))
                     else disk s),
            pages := (pages s)[nat f :=
                        ResetMemory ((pages s ! nat f)\<lparr>page_id := INVALID_PAGE_ID,
                                                         is_dirty := False\<rparr>)],
            free_list := free_list s @ [f],
            page_table := AList.delete pid (page_table s)\<rparr>)"
  using assms bpm_wf_lookup[OF assms(1,2)] by (simp add: DeletePgImp_def Let_def)

lemma DeletePgImp_pinned:
  assumes "bpm_wf s" "map_of (page_table s) pid = Some f" "pin_count (pages s ! nat f) \<noteq> 0"
  shows "DeletePgImp s pid = Inr (False, s)"
  using assms bpm_wf_lookup[OF assms(1,2)] by (simp add: DeletePgImp_def Let_def)

lemma map_of_delete_same: "map_of (AList.delete k al) k = None"
  by (simp add: delete_conv')

text \<open>
  C6. In a well-formed state, \<^verbatim>\<open>DeletePage(p)\<close> returns true and changes nothing when
  \<open>p\<close> is not in the page table; returns false and changes nothing when the resident
  frame's pin count is not zero; and otherwise returns true, having written the frame to
  disk exactly when it was dirty, reset the frame to \<open>page_id = INVALID\<close>,
  \<open>is_dirty = false\<close> and zeroed data, appended the frame id to the free list and erased
  \<open>p\<close> from the page table.
\<close>

theorem DeletePgImp_effect:
  assumes "bpm_wf s"
  shows "(map_of (page_table s) pid = None \<longrightarrow> DeletePgImp s pid = Inr (True, s)) \<and>
         (\<forall>f. map_of (page_table s) pid = Some f \<and> pin_count (pages s ! nat f) \<noteq> 0 \<longrightarrow>
            DeletePgImp s pid = Inr (False, s)) \<and>
         (\<forall>f. map_of (page_table s) pid = Some f \<and> pin_count (pages s ! nat f) = 0 \<longrightarrow>
            (\<exists>s'. DeletePgImp s pid = Inr (True, s') \<and>
              disk s' = (if is_dirty (pages s ! nat f)
                         then (disk s)(page_id (pages s ! nat f) := data (pages s ! nat f))
                         else disk s) \<and>
              page_id (pages s' ! nat f) = INVALID_PAGE_ID \<and>
              is_dirty (pages s' ! nat f) = False \<and>
              data (pages s' ! nat f) = zero_data \<and>
              free_list s' = free_list s @ [f] \<and>
              page_table s' = AList.delete pid (page_table s) \<and>
              map_of (page_table s') pid = None))"
proof (cases "map_of (page_table s) pid")
  case None
  then show ?thesis by (simp add: DeletePgImp_def)
next
  case (Some f)
  from bpm_wf_lookup[OF assms Some] have len: "nat f < length (pages s)"
    by (simp add: frame_valid_def)
  show ?thesis
  proof (cases "pin_count (pages s ! nat f) = 0")
    case True
    from DeletePgImp_unpinned[OF assms Some True] Some True len show ?thesis
      by (simp add: WritePage_def ResetMemory_def map_of_delete_same)
  next
    case False
    from DeletePgImp_pinned[OF assms Some False] Some False show ?thesis by simp
  qed
qed

theorem DeletePgImp_effect_witness:
  "bpm_wf ex_unpinned \<and> bpm_wf ex_pinned \<and>
   DeletePgImp ex_unpinned 7 = Inr (True, ex_unpinned) \<and>
   DeletePgImp ex_pinned 0 = Inr (False, ex_pinned) \<and>
   (\<exists>s'. DeletePgImp ex_unpinned 0 = Inr (True, s') \<and> disk s' 0 = zero_data \<and>
         page_id (pages s' ! 0) = INVALID_PAGE_ID \<and> is_dirty (pages s' ! 0) = False \<and>
         data (pages s' ! 0) = zero_data \<and> free_list s' = [0] \<and> page_table s' = [])"
proof -
  have u: "map_of (page_table ex_unpinned) 0 = Some 0" "map_of (page_table ex_unpinned) 7 = None"
    "disk ex_unpinned = (\<lambda>_. [])" "free_list ex_unpinned = []"
    "pages ex_unpinned ! 0 = \<lparr>page_id = 0, pin_count = 0, is_dirty = True, data = zero_data\<rparr>"
    "page_table ex_unpinned = [(0, 0)]"
    by (simp_all add: ex_unpinned_def)
  have p: "map_of (page_table ex_pinned) 0 = Some 0" "pin_count (pages ex_pinned ! 0) = 1"
    by (simp_all add: ex_pinned_def)
  from DeletePgImp_effect[OF ex_wf(3), of 0] DeletePgImp_effect[OF ex_wf(3), of 7]
    DeletePgImp_effect[OF ex_wf(2), of 0] u p ex_wf(2,3)
  show ?thesis by auto
qed






subsection \<open>Where a frame comes from\<close>

lemma Pin_erase_absent:
  assumes "replacer_inv r" "f \<notin> set (evictable r)"
  shows "Pin_erase r f = r"
  using assms replacer_inv_map_of_None[OF assms(1), of f] by (simp add: Pin_erase_def)

lemma bpm_wf_disk [simp]: "bpm_wf (s\<lparr>disk := d\<rparr>) = bpm_wf s"
  by (simp add: bpm_wf_def frame_valid_def)

lemma frame_valid_next_page_id [simp]:
  "frame_valid (s\<lparr>next_page_id := n\<rparr>) f = frame_valid s f"
  by (simp add: frame_valid_def)

lemma NewPgImp_policy:
  assumes "bpm_wf s" "AllocatePage s = Inr (np, s1)"
  shows "(\<forall>f rest. free_list s = f # rest \<longrightarrow>
            (\<exists>s'. NewPgImp s = Inr (Some (np, f), s') \<and> free_list s' = rest \<and>
                  replacer s' = Pin_erase (replacer s) f \<and> disk s' = disk s)) \<and>
         (free_list s = [] \<and> (\<forall>p \<in> set (pages s). 0 < pin_count p) \<longrightarrow>
            NewPgImp s = Inr (None, s1)) \<and>
         (free_list s = [] \<and> \<not> (\<forall>p \<in> set (pages s). 0 < pin_count p) \<longrightarrow>
            (Victim (replacer s) = None \<longrightarrow> NewPgImp s = Inr (None, s1)) \<and>
            (\<forall>v r'. Victim (replacer s) = Some (v, r') \<longrightarrow>
               (\<exists>s'. NewPgImp s = Inr (Some (np, v), s') \<and> replacer s' = r')))"
proof -
  from AllocatePage_Inr[OF assms(2)]
  have s1: "s1 = s\<lparr>next_page_id := next_page_id s + num_instances s\<rparr>" by simp
  with assms(1) have wf1: "bpm_wf s1" by simp
  have free: "\<exists>s'. NewPgImp s = Inr (Some (np, f), s') \<and> free_list s' = rest \<and>
                  replacer s' = Pin_erase (replacer s) f \<and> disk s' = disk s"
    if "free_list s = f # rest" for f rest
  proof -
    from that have fl: "free_list s1 = f # rest" by (simp add: s1)
    from NewPgImp_Some[OF bpm_wf_free_list_tl(1)[OF wf1 fl] assms(2) pick_frame_free[OF fl]
        bpm_wf_free_list_tl(2)[OF wf1 fl]]
    show ?thesis by (simp add: s1)
  qed
  have pinned: "NewPgImp s = Inr (None, s1)"
    if "free_list s = [] \<and> (\<forall>p \<in> set (pages s). 0 < pin_count p)"
  proof -
    from that all_pinned_iff[OF assms(1)] have "free_list s1 = []" "is_all_spinned (pages s1)"
      by (simp_all add: s1)
    from NewPgImp_fail[OF assms(2) pick_frame_all_pinned[OF this]] show ?thesis .
  qed
  have declined: "NewPgImp s = Inr (None, s1)"
    if "free_list s = []" "Victim (replacer s) = None"
  proof -
    from that have "free_list s1 = []" "Victim (replacer s1) = None" by (simp_all add: s1)
    from NewPgImp_fail[OF assms(2) pick_frame_declined[OF this]] show ?thesis .
  qed
  have victim: "\<exists>s'. NewPgImp s = Inr (Some (np, v), s') \<and> replacer s' = r'"
    if "free_list s = []" "\<not> (\<forall>p \<in> set (pages s). 0 < pin_count p)"
      "Victim (replacer s) = Some (v, r')" for v r'
  proof -
    from that all_pinned_iff[OF assms(1)]
    have c: "free_list s1 = []" "\<not> is_all_spinned (pages s1)" "Victim (replacer s1) = Some (v, r')"
      by (simp_all add: s1)
    note V = Victim_Some_last[OF bpm_wfD(2)[OF assms(1)] that(3)]
    from V have "replacer_inv r'" "v \<notin> set (evictable r')" by blast+
    then have pe: "Pin_erase r' v = r'" by (rule Pin_erase_absent)
    from NewPgImp_Some[OF bpm_wf_victim(1)[OF wf1 c(3)] assms(2)
        pick_frame_victim[OF wf1 c] bpm_wf_victim(2)[OF wf1 c(3)]] pe
    show ?thesis by simp
  qed
  from free pinned declined victim show ?thesis by blast
qed

lemma FetchPgImp_policy:
  assumes "bpm_wf s" "map_of (page_table s) pid = None"
  shows "(\<forall>f rest. free_list s = f # rest \<longrightarrow>
            (\<exists>s'. FetchPgImp s pid = Inr (Some f, s') \<and> free_list s' = rest \<and>
                  replacer s' = Pin_erase (replacer s) f \<and> disk s' = disk s)) \<and>
         (free_list s = [] \<and> (\<forall>p \<in> set (pages s). 0 < pin_count p) \<longrightarrow>
            FetchPgImp s pid = Inr (None, s)) \<and>
         (free_list s = [] \<and> \<not> (\<forall>p \<in> set (pages s). 0 < pin_count p) \<longrightarrow>
            (Victim (replacer s) = None \<longrightarrow> FetchPgImp s pid = Inr (None, s)) \<and>
            (\<forall>v r'. Victim (replacer s) = Some (v, r') \<longrightarrow>
               (\<exists>s'. FetchPgImp s pid = Inr (Some v, s') \<and> replacer s' = r')))"
proof -
  have free: "\<exists>s'. FetchPgImp s pid = Inr (Some f, s') \<and> free_list s' = rest \<and>
                  replacer s' = Pin_erase (replacer s) f \<and> disk s' = disk s"
    if fl: "free_list s = f # rest" for f rest
    using FetchPgImp_miss_Some[OF bpm_wf_free_list_tl(1)[OF assms(1) fl] assms(2)
        pick_frame_free[OF fl] bpm_wf_free_list_tl(2)[OF assms(1) fl]]
    by simp
  have pinned: "FetchPgImp s pid = Inr (None, s)"
    if "free_list s = [] \<and> (\<forall>p \<in> set (pages s). 0 < pin_count p)"
  proof -
    from that all_pinned_iff[OF assms(1)] have "free_list s = []" "is_all_spinned (pages s)"
      by simp_all
    from FetchPgImp_miss_None[OF assms(2) pick_frame_all_pinned[OF this]] show ?thesis .
  qed
  have declined: "FetchPgImp s pid = Inr (None, s)"
    if "free_list s = []" "Victim (replacer s) = None"
    using FetchPgImp_miss_None[OF assms(2) pick_frame_declined[OF that]] .
  have victim: "\<exists>s'. FetchPgImp s pid = Inr (Some v, s') \<and> replacer s' = r'"
    if "free_list s = []" "\<not> (\<forall>p \<in> set (pages s). 0 < pin_count p)"
      "Victim (replacer s) = Some (v, r')" for v r'
  proof -
    from that all_pinned_iff[OF assms(1)]
    have c: "free_list s = []" "\<not> is_all_spinned (pages s)" "Victim (replacer s) = Some (v, r')"
      by simp_all
    note V = Victim_Some_last[OF bpm_wfD(2)[OF assms(1)] that(3)]
    from V have "replacer_inv r'" "v \<notin> set (evictable r')" by blast+
    then have pe: "Pin_erase r' v = r'" by (rule Pin_erase_absent)
    from FetchPgImp_miss_Some[OF bpm_wf_victim(1)[OF assms(1) c(3)] assms(2)
        pick_frame_victim[OF assms(1) c] bpm_wf_victim(2)[OF assms(1) c(3)]] pe
    show ?thesis by simp
  qed
  from free pinned declined victim show ?thesis by blast
qed

text \<open>
  C3. In a well-formed state, for \<^verbatim>\<open>NewPage\<close> (once the allocator has returned) and for
  \<^verbatim>\<open>FetchPage\<close> of a page that is not in the page table: if the free list is not
  empty, the frame at its front is taken and the replacer is left as \<^verbatim>\<open>Pin\<close> of that
  frame alone leaves it (\<^verbatim>\<open>Victim\<close> has not run) and nothing is written to disk;
  otherwise, if every frame has a positive pin count, the operation returns none with
  the replacer untouched; otherwise the frame \<^verbatim>\<open>Victim\<close> names is taken, and if
  \<^verbatim>\<open>Victim\<close> names none the operation returns none.
\<close>

theorem frame_selection_policy:
  assumes "bpm_wf s"
  shows
    "(\<forall>np s1. AllocatePage s = Inr (np, s1) \<longrightarrow>
        (\<forall>f rest. free_list s = f # rest \<longrightarrow>
            (\<exists>s'. NewPgImp s = Inr (Some (np, f), s') \<and> free_list s' = rest \<and>
                  replacer s' = Pin_erase (replacer s) f \<and> disk s' = disk s)) \<and>
        (free_list s = [] \<and> (\<forall>p \<in> set (pages s). 0 < pin_count p) \<longrightarrow>
            NewPgImp s = Inr (None, s1)) \<and>
        (free_list s = [] \<and> \<not> (\<forall>p \<in> set (pages s). 0 < pin_count p) \<longrightarrow>
            (Victim (replacer s) = None \<longrightarrow> NewPgImp s = Inr (None, s1)) \<and>
            (\<forall>v r'. Victim (replacer s) = Some (v, r') \<longrightarrow>
               (\<exists>s'. NewPgImp s = Inr (Some (np, v), s') \<and> replacer s' = r')))) \<and>
     (map_of (page_table s) pid = None \<longrightarrow>
        (\<forall>f rest. free_list s = f # rest \<longrightarrow>
            (\<exists>s'. FetchPgImp s pid = Inr (Some f, s') \<and> free_list s' = rest \<and>
                  replacer s' = Pin_erase (replacer s) f \<and> disk s' = disk s)) \<and>
        (free_list s = [] \<and> (\<forall>p \<in> set (pages s). 0 < pin_count p) \<longrightarrow>
            FetchPgImp s pid = Inr (None, s)) \<and>
        (free_list s = [] \<and> \<not> (\<forall>p \<in> set (pages s). 0 < pin_count p) \<longrightarrow>
            (Victim (replacer s) = None \<longrightarrow> FetchPgImp s pid = Inr (None, s)) \<and>
            (\<forall>v r'. Victim (replacer s) = Some (v, r') \<longrightarrow>
               (\<exists>s'. FetchPgImp s pid = Inr (Some v, s') \<and> replacer s' = r'))))"
  using NewPgImp_policy[OF assms] FetchPgImp_policy[OF assms, of pid] by blast


theorem frame_selection_policy_witness:
  "bpm_wf ex_fresh \<and> bpm_wf ex_pinned \<and> bpm_wf ex_unpinned \<and>
   (\<exists>s'. NewPgImp ex_fresh = Inr (Some (0, 0), s') \<and> free_list s' = [1] \<and>
         replacer s' = Pin_erase (replacer ex_fresh) 0) \<and>
   (\<exists>s'. FetchPgImp ex_fresh 5 = Inr (Some 0, s') \<and> free_list s' = [1] \<and>
         replacer s' = Pin_erase (replacer ex_fresh) 0) \<and>
   NewPgImp ex_pinned = Inr (None, ex_pinned\<lparr>next_page_id := 2\<rparr>) \<and>
   FetchPgImp ex_pinned 5 = Inr (None, ex_pinned) \<and>
   (\<exists>s'. NewPgImp ex_unpinned = Inr (Some (1, 0), s') \<and>
         replacer s' = LRUReplacer_init 1) \<and>
   (\<exists>s'. FetchPgImp ex_unpinned 5 = Inr (Some 0, s') \<and>
         replacer s' = LRUReplacer_init 1)"
proof -
  have a1: "AllocatePage ex_fresh = Inr (0, ex_fresh\<lparr>next_page_id := 1\<rparr>)"
    and a2: "AllocatePage ex_pinned = Inr (1, ex_pinned\<lparr>next_page_id := 2\<rparr>)"
    and a3: "AllocatePage ex_unpinned = Inr (1, ex_unpinned\<lparr>next_page_id := 2\<rparr>)"
    by (simp_all add: AllocatePage_def ValidatePageId_def Let_def ex_fresh_def ex_pinned_def
        ex_unpinned_def)
  have m: "map_of (page_table ex_fresh) 5 = None" "map_of (page_table ex_pinned) 5 = None"
    "map_of (page_table ex_unpinned) 5 = None"
    by (simp_all add: ex_fresh_def ex_pinned_def ex_unpinned_def)
  have fl: "free_list ex_fresh = 0 # [1]" "free_list ex_pinned = []" "free_list ex_unpinned = []"
    by (simp_all add: ex_fresh_def ex_pinned_def ex_unpinned_def)
  have pins: "\<forall>p \<in> set (pages ex_pinned). 0 < pin_count p"
    "\<not> (\<forall>p \<in> set (pages ex_unpinned). 0 < pin_count p)"
    by (simp_all add: ex_pinned_def ex_unpinned_def)
  have v: "Victim (replacer ex_unpinned) = Some (0, LRUReplacer_init 1)"
    by (simp add: ex_unpinned_def Victim_def Unpin_def LRUReplacer_init_def Let_def)
  note P1 = frame_selection_policy[OF ex_wf(1), of 5]
  note P2 = frame_selection_policy[OF ex_wf(2), of 5]
  note P3 = frame_selection_policy[OF ex_wf(3), of 5]
  from P1 a1 fl(1) have n1: "\<exists>s'. NewPgImp ex_fresh = Inr (Some (0, 0), s') \<and> free_list s' = [1] \<and>
         replacer s' = Pin_erase (replacer ex_fresh) 0" by blast
  from P1 m(1) fl(1) have f1: "\<exists>s'. FetchPgImp ex_fresh 5 = Inr (Some 0, s') \<and>
         free_list s' = [1] \<and> replacer s' = Pin_erase (replacer ex_fresh) 0" by blast
  from P2 a2 fl(2) pins(1) have n2: "NewPgImp ex_pinned = Inr (None, ex_pinned\<lparr>next_page_id := 2\<rparr>)"
    by blast
  from P2 m(2) fl(2) pins(1) have f2: "FetchPgImp ex_pinned 5 = Inr (None, ex_pinned)" by blast
  from P3 a3 fl(3) pins(2) v have n3: "\<exists>s'. NewPgImp ex_unpinned = Inr (Some (1, 0), s') \<and>
         replacer s' = LRUReplacer_init 1" by blast
  from P3 m(3) fl(3) pins(2) v have f3: "\<exists>s'. FetchPgImp ex_unpinned 5 = Inr (Some 0, s') \<and>
         replacer s' = LRUReplacer_init 1" by blast
  from ex_wf n1 f1 n2 f2 n3 f3 show ?thesis by blast
qed

subsection \<open>Pinning and unpinning a resident page\<close>

lemma run_ops_append:
  "run_ops s (xs @ ys) =
     (case run_ops s xs of
        Inl e \<Rightarrow> Inl e
      | Inr (rs, s') \<Rightarrow>
          (case run_ops s' ys of
             Inl e \<Rightarrow> Inl e
           | Inr (rs', s'') \<Rightarrow> Inr (rs @ rs', s'')))"
  by (induction xs arbitrary: s) (auto split: sum.splits)

lemma frame_valid_pages_update [simp]:
  "frame_valid (s\<lparr>pages := (pages s)[i := p]\<rparr>) f = frame_valid s f"
  by (simp add: frame_valid_def)

lemma frame_valid_replacer [simp]: "frame_valid (s\<lparr>replacer := r\<rparr>) f = frame_valid s f"
  by (simp add: frame_valid_def)

lemma pins_update:
  assumes "\<And>q. q \<in> set ps \<Longrightarrow> 0 \<le> pin_count q" "0 \<le> pin_count p" "q \<in> set (ps[i := p])"
  shows "0 \<le> pin_count q"
  using assms set_update_subset_insert[of ps i p] by auto

lemma bpm_wf_change:
  assumes "bpm_wf s" "frame_valid s f" "0 \<le> pin_count p" "replacer_inv r"
    "set (evictable r) \<subseteq> insert f (set (evictable (replacer s)))"
  shows "bpm_wf (s\<lparr>pages := (pages s)[nat f := p], replacer := r\<rparr>)"
proof -
  let ?s = "s\<lparr>pages := (pages s)[nat f := p], replacer := r\<rparr>"
  have fv: "frame_valid ?s g = frame_valid s g" for g by (simp add: frame_valid_def)
  have 1: "distinct (map fst (page_table ?s))" using bpm_wfD(1)[OF assms(1)] by simp
  have 2: "replacer_inv (replacer ?s)" using assms(4) by simp
  have 3: "frame_valid ?s g" if "g \<in> set (map snd (page_table ?s))" for g
    using that bpm_wfD(3)[OF assms(1), of g] by (simp add: fv)
  have 4: "frame_valid ?s g" if "g \<in> set (free_list ?s)" for g
    using that bpm_wfD(4)[OF assms(1), of g] by (simp add: fv)
  have 5: "frame_valid ?s g" if "g \<in> set (evictable (replacer ?s))" for g
  proof -
    from that assms(5) have "g = f \<or> g \<in> set (evictable (replacer s))" by auto
    then show ?thesis using assms(2) bpm_wfD(5)[OF assms(1), of g] by (auto simp: fv)
  qed
  have 6: "0 \<le> pin_count q" if "q \<in> set (pages ?s)" for q
    using pins_update[OF bpm_wfD(6)[OF assms(1)] assms(3)] that by simp
  from 1 2 3 4 5 6 show ?thesis unfolding bpm_wf_def by blast
qed

lemma frame_pin_nonneg:
  assumes "bpm_wf s" "frame_valid s f"
  shows "0 \<le> pin_count (pages s ! nat f)"
  using assms(2) bpm_wfD(6)[OF assms(1), of "pages s ! nat f"] by (simp add: frame_valid_def)

lemma FetchPgImp_hit_wf:
  assumes "bpm_wf s" "map_of (page_table s) pid = Some f"
  shows "\<exists>s'. FetchPgImp s pid = Inr (Some f, s') \<and> bpm_wf s' \<and>
              page_table s' = page_table s \<and>
              pin_count (pages s' ! nat f) = pin_count (pages s ! nat f) + 1"
proof -
  note fv = bpm_wf_lookup[OF assms]
  note pe = Pin_erase_inv[OF bpm_wfD(2)[OF assms(1)], of f]
  let ?p = "(pages s ! nat f)\<lparr>pin_count := pin_count (pages s ! nat f) + 1\<rparr>"
  let ?s = "s\<lparr>pages := (pages s)[nat f := ?p], replacer := Pin_erase (replacer s) f\<rparr>"
  from frame_pin_nonneg[OF assms(1) fv] have "0 \<le> pin_count ?p" by simp
  moreover from pe have "set (evictable (Pin_erase (replacer s) f))
      \<subseteq> insert f (set (evictable (replacer s)))" by auto
  ultimately have "bpm_wf ?s" using pe by (intro bpm_wf_change[OF assms(1) fv]) simp_all
  moreover from fv have "pin_count (pages ?s ! nat f) = pin_count (pages s ! nat f) + 1"
    by (simp add: frame_valid_def)
  ultimately show ?thesis using FetchPgImp_hit[OF assms] by simp
qed

lemma UnpinPgImp_success_wf:
  assumes "bpm_wf s" "map_of (page_table s) pid = Some f" "0 < pin_count (pages s ! nat f)"
  shows "\<exists>s'. UnpinPgImp s pid d = Inr (True, s') \<and> bpm_wf s' \<and>
              page_table s' = page_table s \<and>
              pin_count (pages s' ! nat f) = pin_count (pages s ! nat f) - 1"
proof -
  note fv = bpm_wf_lookup[OF assms(1,2)]
  let ?p = "(pages s ! nat f)\<lparr>is_dirty := d, pin_count := pin_count (pages s ! nat f) - 1\<rparr>"
  let ?r = "if pin_count (pages s ! nat f) - 1 = 0 then Unpin (replacer s) f else replacer s"
  let ?s = "s\<lparr>pages := (pages s)[nat f := ?p], replacer := ?r\<rparr>"
  from assms(2,3) fv have u: "UnpinPgImp s pid d = Inr (True, ?s)"
    by (simp add: UnpinPgImp_def Let_def)
  note ui = Unpin_inv[OF bpm_wfD(2)[OF assms(1)], of f]
  from assms(3) have "0 \<le> pin_count ?p" by simp
  moreover from ui bpm_wfD(2)[OF assms(1)] have "replacer_inv ?r" by simp
  moreover from ui have "set (evictable ?r) \<subseteq> insert f (set (evictable (replacer s)))"
    by (auto split: if_splits)
  ultimately have "bpm_wf ?s" by (intro bpm_wf_change[OF assms(1) fv])
  moreover from fv have "pin_count (pages ?s ! nat f) = pin_count (pages s ! nat f) - 1"
    by (simp add: frame_valid_def)
  ultimately show ?thesis using u by simp
qed

lemma fetch_hits:
  assumes "bpm_wf s" "map_of (page_table s) pid = Some f"
  shows "\<exists>s'. run_ops s (replicate n (FetchPage pid)) =
               Inr (replicate n (FetchPage_ret (Some f)), s') \<and>
             bpm_wf s' \<and> page_table s' = page_table s \<and>
             pin_count (pages s' ! nat f) = pin_count (pages s ! nat f) + int n"
  using assms
proof (induction n arbitrary: s)
  case 0
  then show ?case by simp
next
  case (Suc n)
  from FetchPgImp_hit_wf[OF Suc.prems] obtain s1 where
    s1: "FetchPgImp s pid = Inr (Some f, s1)" "bpm_wf s1" "page_table s1 = page_table s"
      "pin_count (pages s1 ! nat f) = pin_count (pages s ! nat f) + 1"
    by blast
  from s1(3) Suc.prems(2) have "map_of (page_table s1) pid = Some f" by simp
  from Suc.IH[OF s1(2) this] obtain s' where
    "run_ops s1 (replicate n (FetchPage pid)) = Inr (replicate n (FetchPage_ret (Some f)), s')"
    "bpm_wf s'" "page_table s' = page_table s1"
    "pin_count (pages s' ! nat f) = pin_count (pages s1 ! nat f) + int n"
    by blast
  with s1 show ?case by simp
qed

lemma unpins_succeed:
  assumes "bpm_wf s" "map_of (page_table s) pid = Some f" "int n \<le> pin_count (pages s ! nat f)"
  shows "\<exists>s'. run_ops s (replicate n (UnpinPage pid d)) = Inr (replicate n (Bool_ret True), s') \<and>
             bpm_wf s' \<and> page_table s' = page_table s \<and>
             pin_count (pages s' ! nat f) = pin_count (pages s ! nat f) - int n"
  using assms
proof (induction n arbitrary: s)
  case 0
  then show ?case by simp
next
  case (Suc n)
  from Suc.prems(3) have "0 < pin_count (pages s ! nat f)" by simp
  from UnpinPgImp_success_wf[OF Suc.prems(1,2) this, of d] obtain s1 where
    s1: "UnpinPgImp s pid d = Inr (True, s1)" "bpm_wf s1" "page_table s1 = page_table s"
      "pin_count (pages s1 ! nat f) = pin_count (pages s ! nat f) - 1"
    by blast
  from s1(3) Suc.prems(2) have m: "map_of (page_table s1) pid = Some f" by simp
  from s1(4) Suc.prems(3) have "int n \<le> pin_count (pages s1 ! nat f)" by simp
  from Suc.IH[OF s1(2) m this] obtain s' where
    "run_ops s1 (replicate n (UnpinPage pid d)) = Inr (replicate n (Bool_ret True), s')"
    "bpm_wf s'" "page_table s' = page_table s1"
    "pin_count (pages s' ! nat f) = pin_count (pages s1 ! nat f) - int n"
    by blast
  with s1 show ?case by simp
qed

text \<open>
  C8. In a well-formed state (where no pin count is negative), for a page \<open>pid\<close> that is
  resident in frame \<open>f\<close> and every \<open>n\<close>: \<open>n\<close> calls of \<^verbatim>\<open>FetchPage(pid)\<close> followed
  by \<open>n\<close> calls of \<^verbatim>\<open>UnpinPage(pid, false)\<close> all return (every fetch is a hit on
  \<open>f\<close>, every unpin returns true), the page is still resident in \<open>f\<close>, and the pin
  count of \<open>f\<close> is what it was before.
\<close>

theorem fetch_unpin_pairs_keep_pin_count:
  assumes "bpm_wf s" and "map_of (page_table s) pid = Some f"
  shows "\<exists>s'. run_ops s (replicate n (FetchPage pid) @ replicate n (UnpinPage pid False)) =
               Inr (replicate n (FetchPage_ret (Some f)) @ replicate n (Bool_ret True), s') \<and>
             map_of (page_table s') pid = Some f \<and>
             pin_count (pages s' ! nat f) = pin_count (pages s ! nat f)"
proof -
  from fetch_hits[OF assms, of n] obtain s1 where
    s1: "run_ops s (replicate n (FetchPage pid)) = Inr (replicate n (FetchPage_ret (Some f)), s1)"
      "bpm_wf s1" "page_table s1 = page_table s"
      "pin_count (pages s1 ! nat f) = pin_count (pages s ! nat f) + int n"
    by blast
  note k = frame_pin_nonneg[OF assms(1) bpm_wf_lookup[OF assms]]
  from s1(3) assms(2) have m: "map_of (page_table s1) pid = Some f" by simp
  from s1(4) k have "int n \<le> pin_count (pages s1 ! nat f)" by simp
  from unpins_succeed[OF s1(2) m this, of False] obtain s' where
    s': "run_ops s1 (replicate n (UnpinPage pid False)) = Inr (replicate n (Bool_ret True), s')"
      "page_table s' = page_table s1"
      "pin_count (pages s' ! nat f) = pin_count (pages s1 ! nat f) - int n"
    by blast
  from s1 s' assms(2) k show ?thesis by (simp add: run_ops_append)
qed

theorem fetch_unpin_pairs_keep_pin_count_witness:
  "bpm_wf ex_pinned \<and> map_of (page_table ex_pinned) 0 = Some 0 \<and>
   pin_count (pages ex_pinned ! 0) = 1 \<and>
   (\<exists>s'. run_ops ex_pinned
           [FetchPage 0, FetchPage 0, FetchPage 0,
            UnpinPage 0 False, UnpinPage 0 False, UnpinPage 0 False] =
          Inr ([FetchPage_ret (Some 0), FetchPage_ret (Some 0), FetchPage_ret (Some 0),
                Bool_ret True, Bool_ret True, Bool_ret True], s') \<and>
         pin_count (pages s' ! 0) = 1)"
proof -
  have m: "map_of (page_table ex_pinned) 0 = Some 0" and k: "pin_count (pages ex_pinned ! 0) = 1"
    by (simp_all add: ex_pinned_def)
  have e1: "replicate 3 (FetchPage 0) @ replicate 3 (UnpinPage 0 False) =
      [FetchPage 0, FetchPage 0, FetchPage 0,
       UnpinPage 0 False, UnpinPage 0 False, UnpinPage 0 False]"
    and e2: "replicate 3 (FetchPage_ret (Some 0)) @ replicate 3 (Bool_ret True) =
      [FetchPage_ret (Some 0), FetchPage_ret (Some 0), FetchPage_ret (Some 0),
       Bool_ret True, Bool_ret True, Bool_ret True]"
    by (simp_all add: numeral_3_eq_3)
  from fetch_unpin_pairs_keep_pin_count[OF ex_wf(2) m, of 3] obtain s' where
    r: "run_ops ex_pinned (replicate 3 (FetchPage 0) @ replicate 3 (UnpinPage 0 False)) =
          Inr (replicate 3 (FetchPage_ret (Some 0)) @ replicate 3 (Bool_ret True), s')"
    and p: "pin_count (pages s' ! nat 0) = pin_count (pages ex_pinned ! nat 0)"
    by blast
  from p k have "pin_count (pages s' ! 0) = 1" by simp
  with r[unfolded e1 e2] m k ex_wf(2) show ?thesis by blast
qed

subsection \<open>The allocator\<close>

lemma pick_frame_consts:
  "pick_frame s = Inr (f, s2) \<Longrightarrow>
     num_instances s2 = num_instances s \<and> instance_index s2 = instance_index s"
  by (auto simp: pick_frame_def Let_def split: list.splits if_splits option.splits)

lemma NewPgImp_consts:
  assumes "NewPgImp s = Inr (r, s')"
  shows "num_instances s' = num_instances s \<and> instance_index s' = instance_index s \<and>
         (\<forall>p f. r = Some (p, f) \<longrightarrow> p mod num_instances s = instance_index s)"
proof -
  from assms obtain np s1 where a: "AllocatePage s = Inr (np, s1)"
    by (auto simp: NewPgImp_def split: sum.splits)
  from assms a obtain f s2 where p: "pick_frame s1 = Inr (f, s2)"
    by (auto simp: NewPgImp_def split: sum.splits)
  note A = AllocatePage_Inr[OF a]
  from A pick_frame_consts[OF p]
  have c: "num_instances s2 = num_instances s" "instance_index s2 = instance_index s" by auto
  from assms a p c A show ?thesis
    by (auto simp: NewPgImp_def Let_def split: sum.splits if_splits)
qed

lemma FetchPgImp_consts:
  assumes "FetchPgImp s pid = Inr (r, s')"
  shows "num_instances s' = num_instances s \<and> instance_index s' = instance_index s"
proof (cases "map_of (page_table s) pid")
  case (Some f)
  with assms show ?thesis
    by (auto simp: FetchPgImp_def Let_def split: sum.splits if_splits)
next
  case None
  with assms obtain f s2 where p: "pick_frame s = Inr (f, s2)"
    by (auto simp: FetchPgImp_def split: sum.splits)
  from assms None p pick_frame_consts[OF p] show ?thesis
    by (auto simp: FetchPgImp_def Let_def split: sum.splits if_splits)
qed

lemma FlushAll_loop_consts:
  "FlushAll_loop es s = Inr s' \<Longrightarrow>
     num_instances s' = num_instances s \<and> instance_index s' = instance_index s"
  by (induction es arbitrary: s) (auto simp: Let_def split: if_splits)

lemma apply_op_consts:
  assumes "apply_op x s = Inr (r, s')"
  shows "num_instances s' = num_instances s \<and> instance_index s' = instance_index s"
proof (cases x)
  case NewPage
  with assms show ?thesis by (auto split: sum.splits dest: NewPgImp_consts)
next
  case (FetchPage pid)
  with assms show ?thesis by (auto split: sum.splits dest: FetchPgImp_consts)
next
  case (UnpinPage pid d)
  with assms show ?thesis
    by (auto simp: UnpinPgImp_def Let_def split: sum.splits option.splits if_splits)
next
  case (FlushPage pid)
  with assms show ?thesis
    by (auto simp: FlushPgImp_def Let_def split: sum.splits option.splits if_splits)
next
  case FlushAllPages
  with assms show ?thesis
    by (auto simp: FlushAllPgsImp_def split: sum.splits dest: FlushAll_loop_consts)
next
  case (DeletePage pid)
  with assms show ?thesis
    by (auto simp: DeletePgImp_def Let_def split: sum.splits option.splits if_splits)
qed

lemma run_ops_page_ids:
  assumes "run_ops s ops = Inr (rets, s')" "NewPage_ret (Some (p, f)) \<in> set rets"
  shows "p mod num_instances s = instance_index s"
  using assms
proof (induction ops arbitrary: s rets)
  case Nil
  then show ?case by simp
next
  case (Cons x xs)
  from Cons.prems(1) obtain r s1 rs where
    x: "apply_op x s = Inr (r, s1)" and xs: "run_ops s1 xs = Inr (rs, s')" and rets: "rets = r # rs"
    by (auto split: sum.splits)
  note c = apply_op_consts[OF x]
  from Cons.prems(2) rets consider "r = NewPage_ret (Some (p, f))" | "NewPage_ret (Some (p, f)) \<in> set rs"
    by auto
  then show ?case
  proof cases
    case 1
    with x have "x = NewPage" by (cases x) (auto split: sum.splits)
    with x 1 have "\<exists>s''. NewPgImp s = Inr (Some (p, f), s'')" by (auto split: sum.splits)
    then show ?thesis using NewPgImp_consts by blast
  next
    case 2
    from Cons.IH[OF xs 2] c show ?thesis by simp
  qed
qed

lemma init_consts:
  "BufferPoolManagerInstance_init psize ninst idx dm = Inr s \<Longrightarrow>
     num_instances s = ninst \<and> instance_index s = idx \<and> next_page_id s = idx \<and>
     ninst \<noteq> 0 \<and> idx mod ninst = idx"
  by (auto simp: BufferPoolManagerInstance_init_def mod_word_less split: if_splits)

lemma no_wrap_keeps_residue:
  fixes a n :: "32 word"
  assumes "unat a + unat n < 2 ^ 32"
  shows "(a + n) mod n = a mod n"
proof -
  from assms unat_add_lem[of a n] have "unat (a + n) = unat a + unat n" by simp
  then have "unat ((a + n) mod n) = (unat a + unat n) mod unat n" by (simp add: unat_mod)
  also have "\<dots> = unat (a mod n)" by (simp add: unat_mod)
  finally show ?thesis by (simp add: word_unat_eq_iff)
qed

lemma AllocatePage_total:
  assumes "num_instances s \<noteq> 0" "next_page_id s mod num_instances s = instance_index s"
  shows "AllocatePage s =
           Inr (next_page_id s, s\<lparr>next_page_id := next_page_id s + num_instances s\<rparr>)"
  using assms by (simp add: AllocatePage_def ValidatePageId_def Let_def)

lemma sharded_run:
  "\<exists>s0 s'. BufferPoolManagerInstance_init 4 4 2 dm = Inr s0 \<and>
      run_ops s0 [NewPage, NewPage, NewPage, NewPage] =
        Inr ([NewPage_ret (Some (2, 0)), NewPage_ret (Some (6, 1)),
              NewPage_ret (Some (10, 2)), NewPage_ret (Some (14, 3))], s')"
  by (simp add: BufferPoolManagerInstance_init_def NewPgImp_def AllocatePage_def
      ValidatePageId_def pick_frame_def frame_valid_def Pin_def LRUReplacer_init_def
      Let_def upt_rec word_mod_def)


text \<open>
  What holds of the allocator. Every call of \<^verbatim>\<open>AllocatePage\<close> that returns yields the
  current \<open>next_page_id\<close>, leaves \<open>next_page_id\<close> advanced by \<open>num_instances\<close>, and the
  id it yields is congruent to \<open>instance_index\<close> modulo \<open>num_instances\<close>; the call
  returns whenever the counter is congruent to \<open>instance_index\<close>, which the constructor
  establishes and which an advance that does not wrap around \<open>2 ^ 32\<close> keeps. So every
  page id that \<^verbatim>\<open>NewPage\<close> returns in any run from a freshly constructed instance is
  congruent to \<open>instance_index\<close> modulo \<open>num_instances\<close>. With a pool of four frames,
  \<open>num_instances = 4\<close> and \<open>instance_index = 2\<close>, four calls of \<^verbatim>\<open>NewPage\<close> return the
  ids 2, 6, 10 and 14.
\<close>

lemma AllocatePage_page_ids:
  "(\<forall>np s1. AllocatePage s = Inr (np, s1) \<longrightarrow>
      np = next_page_id s \<and> s1 = s\<lparr>next_page_id := next_page_id s + num_instances s\<rparr> \<and>
      np mod num_instances s = instance_index s) \<and>
   (num_instances s \<noteq> 0 \<and> next_page_id s mod num_instances s = instance_index s \<longrightarrow>
      AllocatePage s =
        Inr (next_page_id s, s\<lparr>next_page_id := next_page_id s + num_instances s\<rparr>) \<and>
      (unat (next_page_id s) + unat (num_instances s) < 2 ^ 32 \<longrightarrow>
         (next_page_id s + num_instances s) mod num_instances s = instance_index s)) \<and>
   (\<forall>psize ninst idx dm0 s0 ops rets s' p f.
      BufferPoolManagerInstance_init psize ninst idx dm0 = Inr s0 \<and>
      run_ops s0 ops = Inr (rets, s') \<and> NewPage_ret (Some (p, f)) \<in> set rets \<longrightarrow>
      p mod ninst = idx \<and> next_page_id s0 = idx \<and> idx mod ninst = idx) \<and>
   (\<exists>s0 s'. BufferPoolManagerInstance_init 4 4 2 dm = Inr s0 \<and>
      run_ops s0 [NewPage, NewPage, NewPage, NewPage] =
        Inr ([NewPage_ret (Some (2, 0)), NewPage_ret (Some (6, 1)),
              NewPage_ret (Some (10, 2)), NewPage_ret (Some (14, 3))], s'))"
proof -
  have contract: "np = next_page_id s \<and>
      s1 = s\<lparr>next_page_id := next_page_id s + num_instances s\<rparr> \<and>
      np mod num_instances s = instance_index s"
    if "AllocatePage s = Inr (np, s1)" for np s1
    using AllocatePage_Inr[OF that] by blast
  have total: "AllocatePage s =
        Inr (next_page_id s, s\<lparr>next_page_id := next_page_id s + num_instances s\<rparr>) \<and>
      (unat (next_page_id s) + unat (num_instances s) < 2 ^ 32 \<longrightarrow>
         (next_page_id s + num_instances s) mod num_instances s = instance_index s)"
    if "num_instances s \<noteq> 0 \<and> next_page_id s mod num_instances s = instance_index s"
    using that AllocatePage_total[of s] no_wrap_keeps_residue[of "next_page_id s" "num_instances s"]
    by simp
  have ids: "p mod ninst = idx \<and> next_page_id s0 = idx \<and> idx mod ninst = idx"
    if "BufferPoolManagerInstance_init psize ninst idx dm0 = Inr s0 \<and>
        run_ops s0 ops = Inr (rets, s') \<and> NewPage_ret (Some (p, f)) \<in> set rets"
    for psize ninst idx dm0 s0 ops rets s' p f
  proof -
    from that have i: "BufferPoolManagerInstance_init psize ninst idx dm0 = Inr s0"
      and r: "run_ops s0 ops = Inr (rets, s')" and m: "NewPage_ret (Some (p, f)) \<in> set rets"
      by simp_all
    from run_ops_page_ids[OF r m] init_consts[OF i] show ?thesis by simp
  qed
  show ?thesis
  proof (intro conjI allI impI)
    fix np s1
    assume a: "AllocatePage s = Inr (np, s1)"
    from contract[OF a] show "np = next_page_id s"
      and "s1 = s\<lparr>next_page_id := next_page_id s + num_instances s\<rparr>"
      and "np mod num_instances s = instance_index s" by blast+
  next
    assume a: "num_instances s \<noteq> 0 \<and> next_page_id s mod num_instances s = instance_index s"
    from total[OF a] show "AllocatePage s =
        Inr (next_page_id s, s\<lparr>next_page_id := next_page_id s + num_instances s\<rparr>)"
      by blast
    assume "unat (next_page_id s) + unat (num_instances s) < 2 ^ 32"
    with total[OF a]
    show "(next_page_id s + num_instances s) mod num_instances s = instance_index s" by blast
  next
    fix psize ninst idx dm0 s0 ops rets s' p f
    assume a: "BufferPoolManagerInstance_init psize ninst idx dm0 = Inr s0 \<and>
        run_ops s0 ops = Inr (rets, s') \<and> NewPage_ret (Some (p, f)) \<in> set rets"
    from ids[OF a] show "p mod ninst = idx" and "next_page_id s0 = idx" and "idx mod ninst = idx"
      by blast+
  next
    show "\<exists>s0 s'. BufferPoolManagerInstance_init 4 4 2 dm = Inr s0 \<and>
      run_ops s0 [NewPage, NewPage, NewPage, NewPage] =
        Inr ([NewPage_ret (Some (2, 0)), NewPage_ret (Some (6, 1)),
              NewPage_ret (Some (10, 2)), NewPage_ret (Some (14, 3))], s')"
      by (rule sharded_run)
  qed
qed

lemma AllocatePage_page_ids_example:
  "AllocatePage ex_fresh = Inr (0, ex_fresh\<lparr>next_page_id := 1\<rparr>) \<and>
   (\<exists>s0 s'. BufferPoolManagerInstance_init 4 4 2 (\<lambda>_. []) = Inr s0 \<and>
      run_ops s0 [NewPage, NewPage, NewPage, NewPage] =
        Inr ([NewPage_ret (Some (2, 0)), NewPage_ret (Some (6, 1)),
              NewPage_ret (Some (10, 2)), NewPage_ret (Some (14, 3))], s')) \<and>
   (10 :: 32 word) mod 4 = 2"
proof -
  note T = AllocatePage_page_ids[of ex_fresh "\<lambda>_. []"]
  have c: "num_instances ex_fresh \<noteq> 0"
    "next_page_id ex_fresh mod num_instances ex_fresh = instance_index ex_fresh"
    "next_page_id ex_fresh = 0" "num_instances ex_fresh = 1"
    by (simp_all add: ex_fresh_def)
  from T[THEN conjunct2, THEN conjunct1] c
  have a: "AllocatePage ex_fresh = Inr (0, ex_fresh\<lparr>next_page_id := 1\<rparr>)" by simp
  from T[THEN conjunct2, THEN conjunct2, THEN conjunct2] obtain s0 s' where
    i: "BufferPoolManagerInstance_init 4 4 2 (\<lambda>_. []) = Inr s0"
    and r: "run_ops s0 [NewPage, NewPage, NewPage, NewPage] =
        Inr ([NewPage_ret (Some (2, 0)), NewPage_ret (Some (6, 1)),
              NewPage_ret (Some (10, 2)), NewPage_ret (Some (14, 3))], s')"
    by blast
  have "NewPage_ret (Some (10, 2)) \<in> set [NewPage_ret (Some (2, 0)), NewPage_ret (Some (6, 1)),
              NewPage_ret (Some (10, 2)), NewPage_ret (Some (14, 3))]" by simp
  with T[THEN conjunct2, THEN conjunct2, THEN conjunct1] i r
  have "(10 :: 32 word) mod 4 = 2" by blast
  with a i r show ?thesis by blast
qed

text \<open>
  C5. Not every call of the allocator returns. An advance of \<open>next_page_id\<close> that wraps
  around \<open>2 ^ 32\<close> leaves a counter that is no longer congruent to \<open>instance_index\<close>
  when \<open>num_instances\<close> does not divide \<open>2 ^ 32\<close>, and the next call fails the assertion
  of \<^verbatim>\<open>ValidatePageId\<close>. On a pool of one frame with \<open>num_instances = 2 ^ 31 + 1\<close> and
  \<open>instance_index = 0\<close>: \<^verbatim>\<open>NewPage\<close> returns page 0, \<^verbatim>\<open>UnpinPage(0, false)\<close> succeeds,
  \<^verbatim>\<open>NewPage\<close> returns page \<open>2 ^ 31 + 1\<close>, and \<open>next_page_id\<close> is then 2; the next
  \<^verbatim>\<open>AllocatePage\<close>, and with it the next \<^verbatim>\<open>NewPage\<close>, does not return.
\<close>

theorem AllocatePage_aborts_after_wrap:
  "\<exists>s0 s. BufferPoolManagerInstance_init 1 2147483649 0 (\<lambda>_. []) = Inr s0 \<and>
      run_ops s0 [NewPage, UnpinPage 0 False, NewPage] =
        Inr ([NewPage_ret (Some (0, 0)), Bool_ret True,
              NewPage_ret (Some (2147483649, 0))], s) \<and>
      num_instances s = 2147483649 \<and> instance_index s = 0 \<and> next_page_id s = 2 \<and>
      AllocatePage s = Inl AssertionFailed \<and> NewPgImp s = Inl AssertionFailed"
  by (simp add: BufferPoolManagerInstance_init_def NewPgImp_def UnpinPgImp_def AllocatePage_def
      ValidatePageId_def pick_frame_def is_all_spinned_def frame_valid_def Pin_def Unpin_def
      Victim_def fresh_node_def LRUReplacer_init_def Page_init_def ResetMemory_def
      Let_def word_mod_def)

subsection \<open>The dirty flag\<close>

lemma UnpinPgImp_dirty_assigned:
  assumes "bpm_wf s" "map_of (page_table s) pid = Some f"
  shows "\<exists>r s'. UnpinPgImp s pid d = Inr (r, s') \<and> is_dirty (pages s' ! nat f) = d"
  using assms(2) bpm_wf_lookup[OF assms]
  by (auto simp: UnpinPgImp_def Let_def frame_valid_def)

lemma clean_unpin_run:
  "\<exists>s. run_ops ex_pinned [FetchPage 0, UnpinPage 0 True, UnpinPage 0 False] =
          Inr ([FetchPage_ret (Some 0), Bool_ret True, Bool_ret True], s) \<and>
        page_table s = [(0, 0)] \<and> disk s = disk ex_pinned \<and>
        is_dirty (pages s ! 0) = False"
  by (simp add: ex_pinned_def FetchPgImp_def UnpinPgImp_def frame_valid_def Pin_def
      LRUReplacer_init_def Let_def)

text \<open>
  C1. \<^verbatim>\<open>UnpinPgImp\<close> assigns the caller's flag to \<open>is_dirty\<close>, it does not accumulate
  it. On the pool \<open>ex_pinned\<close> (page 0 resident in frame 0 after \<^verbatim>\<open>NewPage\<close>), the calls
  \<^verbatim>\<open>FetchPage(0)\<close>, \<^verbatim>\<open>UnpinPage(0, true)\<close>, \<^verbatim>\<open>UnpinPage(0, false)\<close> all succeed, the
  page stays in its frame, nothing is written to disk, and the frame's \<open>is_dirty\<close> ends
  false.
\<close>

theorem UnpinPgImp_overwrites_dirty:
  "\<exists>s. run_ops ex_pinned [FetchPage 0, UnpinPage 0 True, UnpinPage 0 False] =
          Inr ([FetchPage_ret (Some 0), Bool_ret True, Bool_ret True], s) \<and>
        page_table s = [(0, 0)] \<and> disk s = disk ex_pinned \<and>
        is_dirty (pages s ! 0) = False"
  by (rule clean_unpin_run)

section \<open>The invariant of the reachable states\<close>

subsection \<open>The invariant, taken apart and put together\<close>

lemma frame_valid_iff: "frame_valid s f \<longleftrightarrow> f \<in> set (map int [0..<pool_size s])"
proof
  assume "frame_valid s f"
  then have "0 \<le> f" "nat f < length (pages s)" by (simp_all add: frame_valid_def)
  then have "f = int (nat f)" "nat f \<in> {0..<pool_size s}" by (simp_all add: pool_size_def)
  then show "f \<in> set (map int [0..<pool_size s])" by (metis atLeastLessThan_upt imageI set_map)
next
  assume "f \<in> set (map int [0..<pool_size s])"
  then show "frame_valid s f" by (auto simp: frame_valid_def pool_size_def)
qed

lemma frame_update_nth:
  assumes "frame_valid s f" "frame_valid s g"
  shows "(pages s)[nat f := p] ! nat g = (if g = f then p else pages s ! nat g)"
proof (cases "g = f")
  case True
  with assms show ?thesis by (simp add: frame_valid_def)
next
  case False
  with assms have "nat f \<noteq> nat g" by (auto simp: frame_valid_def)
  with False show ?thesis by simp
qed

lemma bpm_invD:
  assumes "bpm_inv s"
  shows "bpm_wf s" and "capacity (replacer s) = pool_size s"
    and "distinct (page_table_frames s)" and "distinct (free_list s)"
    and "\<And>f. f \<in> set (page_table_frames s) \<Longrightarrow> f \<notin> set (free_list s)"
    and "\<And>k f. (k, f) \<in> set (page_table s) \<Longrightarrow> page_id (pages s ! nat f) = k"
    and "\<And>f. f \<in> set (free_list s) \<Longrightarrow> pin_count (pages s ! nat f) = 0"
    and "\<And>f. f \<in> set (evictable (replacer s)) \<Longrightarrow> pin_count (pages s ! nat f) = 0"
    and "\<And>f. f \<in> set (page_table_frames s) \<Longrightarrow> pin_count (pages s ! nat f) = 0 \<Longrightarrow>
           f \<in> set (evictable (replacer s))"
proof -
  from assms show "bpm_wf s" "capacity (replacer s) = pool_size s"
    "distinct (page_table_frames s)" "distinct (free_list s)"
    by (simp_all add: bpm_inv_def)
  from assms have "set (page_table_frames s) \<inter> set (free_list s) = {}"
    by (simp add: bpm_inv_def)
  then show "\<And>f. f \<in> set (page_table_frames s) \<Longrightarrow> f \<notin> set (free_list s)" by blast
  from assms have "\<forall>e \<in> set (page_table s). page_id (pages s ! nat (snd e)) = fst e"
    by (simp add: bpm_inv_def)
  then show "\<And>k f. (k, f) \<in> set (page_table s) \<Longrightarrow> page_id (pages s ! nat f) = k"
    by fastforce
  from assms show "\<And>f. f \<in> set (free_list s) \<Longrightarrow> pin_count (pages s ! nat f) = 0"
    by (simp add: bpm_inv_def)
  from assms show "\<And>f. f \<in> set (evictable (replacer s)) \<Longrightarrow> pin_count (pages s ! nat f) = 0"
    by (simp add: bpm_inv_def)
  from assms show "\<And>f. f \<in> set (page_table_frames s) \<Longrightarrow> pin_count (pages s ! nat f) = 0 \<Longrightarrow>
           f \<in> set (evictable (replacer s))"
    by (simp add: bpm_inv_def)
qed

lemma bpm_invI:
  assumes "bpm_wf s" and "capacity (replacer s) = pool_size s"
    and "distinct (page_table_frames s)" and "distinct (free_list s)"
    and "\<And>f. f \<in> set (page_table_frames s) \<Longrightarrow> f \<notin> set (free_list s)"
    and "\<And>k f. (k, f) \<in> set (page_table s) \<Longrightarrow> page_id (pages s ! nat f) = k"
    and "\<And>f. f \<in> set (free_list s) \<Longrightarrow> pin_count (pages s ! nat f) = 0"
    and "\<And>f. f \<in> set (evictable (replacer s)) \<Longrightarrow> pin_count (pages s ! nat f) = 0"
    and "\<And>f. f \<in> set (page_table_frames s) \<Longrightarrow> pin_count (pages s ! nat f) = 0 \<Longrightarrow>
           f \<in> set (evictable (replacer s))"
  shows "bpm_inv s"
proof -
  from assms(5) have "set (page_table_frames s) \<inter> set (free_list s) = {}" by blast
  moreover from assms(6) have "\<forall>e \<in> set (page_table s). page_id (pages s ! nat (snd e)) = fst e"
    by (metis prod.collapse)
  ultimately show ?thesis
    using assms(1-4,7-9) unfolding bpm_inv_def by blast
qed

lemma ptf_valid: "bpm_wf s \<Longrightarrow> f \<in> set (page_table_frames s) \<Longrightarrow> frame_valid s f"
  by (simp add: bpm_wfD(3) page_table_frames_def)

lemma ptf_entry: "f \<in> set (page_table_frames s) \<longleftrightarrow> (\<exists>k. (k, f) \<in> set (page_table s))"
  by (force simp: page_table_frames_def)

lemma init_inv:
  assumes "BufferPoolManagerInstance_init psize ninst idx dm = Inr s"
  shows "bpm_inv s \<and> no_orphan s"
proof -
  from assms have s: "s = \<lparr>num_instances = ninst, instance_index = idx, next_page_id = idx,
                pages = replicate psize Page_init, page_table = [],
                free_list = map int [0..<psize],
                replacer = LRUReplacer_init psize, disk = dm\<rparr>"
    by (simp add: BufferPoolManagerInstance_init_def split: if_splits)
  have ev: "evictable (LRUReplacer_init psize) = []"
    by (simp add: evictable_def LRUReplacer_init_def)
  have wf: "bpm_wf s"
    by (auto simp: s bpm_wf_def replacer_inv_init ev frame_valid_def Page_init_def)
  have d: "distinct (map int [0..<psize])" by (simp add: distinct_map)
  have cap: "capacity (LRUReplacer_init psize) = psize" by (simp add: LRUReplacer_init_def)
  have "bpm_inv s"
    by (rule bpm_invI[OF wf])
       (auto simp: s ev d cap page_table_frames_def pool_size_def Page_init_def)
  moreover have "no_orphan s" by (simp add: s no_orphan_def pool_size_def page_table_frames_def)
  ultimately show ?thesis ..
qed

subsection \<open>A frame leaves the free list or the replacer\<close>

lemma bpm_wf_free_list_sub:
  assumes "bpm_wf s" "set fl \<subseteq> set (free_list s)"
  shows "bpm_wf (s\<lparr>free_list := fl\<rparr>)"
  using assms by (auto simp: bpm_wf_def frame_valid_def)

lemma pick_frame_free_inv:
  assumes "bpm_inv s" "free_list s = f # rest"
  shows "bpm_inv (s\<lparr>free_list := rest\<rparr>)" and "frame_valid s f"
    and "f \<notin> set (page_table_frames s)" and "f \<notin> set rest"
    and "pin_count (pages s ! nat f) = 0"
proof -
  note I = bpm_invD[OF assms(1)]
  let ?s = "s\<lparr>free_list := rest\<rparr>"
  from assms(2) have sub: "set rest \<subseteq> set (free_list s)" by auto
  have ptf: "page_table_frames ?s = page_table_frames s" by (simp add: page_table_frames_def)
  show "bpm_inv ?s"
  proof (rule bpm_invI)
    show "bpm_wf ?s" by (rule bpm_wf_free_list_sub[OF I(1) sub])
    show "capacity (replacer ?s) = pool_size ?s" using I(2) by (simp add: pool_size_def)
    show "distinct (page_table_frames ?s)" using I(3) by (simp add: ptf)
    show "distinct (free_list ?s)" using I(4) assms(2) by simp
    show "g \<notin> set (free_list ?s)" if "g \<in> set (page_table_frames ?s)" for g
      using that I(5)[of g] sub by (auto simp: ptf)
    show "page_id (pages ?s ! nat g) = k" if "(k, g) \<in> set (page_table ?s)" for k g
      using that I(6)[of k g] by simp
    show "pin_count (pages ?s ! nat g) = 0" if "g \<in> set (free_list ?s)" for g
      using that I(7)[of g] sub by auto
    show "pin_count (pages ?s ! nat g) = 0" if "g \<in> set (evictable (replacer ?s))" for g
      using that I(8)[of g] by simp
    show "g \<in> set (evictable (replacer ?s))"
      if "g \<in> set (page_table_frames ?s)" "pin_count (pages ?s ! nat g) = 0" for g
      using that I(9)[of g] by (simp add: ptf)
  qed
  from assms(2) have mem: "f \<in> set (free_list s)" by simp
  show "frame_valid s f" by (rule bpm_wfD(4)[OF I(1) mem])
  show "f \<notin> set (page_table_frames s)" using I(5)[of f] mem by blast
  show "f \<notin> set rest" using I(4) assms(2) by simp
  show "pin_count (pages s ! nat f) = 0" by (rule I(7)[OF mem])
qed

lemma no_orphanD:
  "no_orphan s \<Longrightarrow> frame_valid s f \<Longrightarrow>
     f \<in> set (page_table_frames s) \<or> f \<in> set (free_list s)"
  unfolding no_orphan_def frame_valid_iff by blast

lemma no_orphanI:
  "(\<And>f. frame_valid s f \<Longrightarrow> f \<in> set (page_table_frames s) \<or> f \<in> set (free_list s)) \<Longrightarrow>
     no_orphan s"
  unfolding no_orphan_def frame_valid_iff by blast

lemma distinct_snd_delete:
  "distinct (map snd al) \<Longrightarrow> distinct (map snd (AList.delete k al))"
  by (simp add: AList.delete_eq distinct_map_filter)

lemma pick_frame_victim_inv:
  assumes "bpm_inv s" "free_list s = []" "Victim (replacer s) = Some (v, r')"
  shows "bpm_inv (s\<lparr>replacer := r', disk := d,
                   page_table := AList.delete (page_id (pages s ! nat v)) (page_table s)\<rparr>)"
    and "frame_valid s v"
    and "v \<notin> set (map snd (AList.delete (page_id (pages s ! nat v)) (page_table s)))"
    and "pin_count (pages s ! nat v) = 0"
    and "no_orphan s \<Longrightarrow> frame_valid s g \<Longrightarrow> g \<noteq> v \<Longrightarrow>
           g \<in> set (map snd (AList.delete (page_id (pages s ! nat v)) (page_table s)))"
proof -
  note I = bpm_invD[OF assms(1)]
  note V = Victim_Some_last[OF bpm_wfD(2)[OF I(1)] assms(3)]
  let ?k = "page_id (pages s ! nat v)"
  let ?s = "s\<lparr>replacer := r', disk := d, page_table := AList.delete ?k (page_table s)\<rparr>"
  from V have vmem: "v \<in> set (evictable (replacer s))" by (metis last_in_set)
  from V have ev: "set (evictable (replacer s)) = insert v (set (evictable r'))"
    by (metis append_butlast_last_id list.simps(15) rotate1.simps(2) set_rotate1)
  have sub: "set (page_table ?s) \<subseteq> set (page_table s)" by (auto simp: set_alist_delete)
  then have ptfsub: "set (page_table_frames ?s) \<subseteq> set (page_table_frames s)"
    by (auto simp: page_table_frames_def)
  show nv: "v \<notin> set (map snd (AList.delete ?k (page_table s)))"
  proof
    assume "v \<in> set (map snd (AList.delete ?k (page_table s)))"
    then obtain k' where k': "(k', v) \<in> set (page_table s)" "k' \<noteq> ?k"
      by (auto simp: set_alist_delete)
    from I(6)[OF k'(1)] k'(2) show False by simp
  qed
  show "bpm_inv ?s"
  proof (rule bpm_invI)
    show "bpm_wf ?s" by (rule bpm_wf_victim(1)[OF I(1) assms(3)])
    show "capacity (replacer ?s) = pool_size ?s" using I(2) V by (simp add: pool_size_def)
    show "distinct (page_table_frames ?s)"
      using I(3) by (simp add: page_table_frames_def distinct_snd_delete)
    show "distinct (free_list ?s)" using I(4) by simp
    show "g \<notin> set (free_list ?s)" if "g \<in> set (page_table_frames ?s)" for g
      using assms(2) by simp
    show "page_id (pages ?s ! nat g) = k" if "(k, g) \<in> set (page_table ?s)" for k g
      using that sub I(6)[of k g] by auto
    show "pin_count (pages ?s ! nat g) = 0" if "g \<in> set (free_list ?s)" for g
      using that assms(2) by simp
    show "pin_count (pages ?s ! nat g) = 0" if "g \<in> set (evictable (replacer ?s))" for g
      using that I(8)[of g] ev by simp
    show "g \<in> set (evictable (replacer ?s))"
      if "g \<in> set (page_table_frames ?s)" "pin_count (pages ?s ! nat g) = 0" for g
    proof -
      from that(1) nv have "g \<noteq> v" by (auto simp: page_table_frames_def)
      moreover from that ptfsub I(9)[of g] have "g \<in> set (evictable (replacer s))" by auto
      ultimately show ?thesis using ev by simp
    qed
  qed
  show "frame_valid s v" by (rule bpm_wfD(5)[OF I(1) vmem])
  show "pin_count (pages s ! nat v) = 0" by (rule I(8)[OF vmem])
  show "g \<in> set (map snd (AList.delete ?k (page_table s)))"
    if no: "no_orphan s" and gv: "frame_valid s g" and ne: "g \<noteq> v"
  proof -
    from no assms(2) have all: "h \<in> set (page_table_frames s)" if "frame_valid s h" for h
      using no_orphanD[OF no that] assms(2) by simp
    from all[OF gv] obtain kg where kg: "(kg, g) \<in> set (page_table s)" by (auto simp: ptf_entry)
    from all[OF \<open>frame_valid s v\<close>] obtain kv where kv: "(kv, v) \<in> set (page_table s)"
      by (auto simp: ptf_entry)
    from I(6)[OF kv] have kv': "kv = ?k" by simp
    have "kg \<noteq> ?k"
    proof
      assume "kg = ?k"
      with kg kv kv' bpm_wfD(1)[OF I(1)] have "g = v"
        by (metis eq_key_imp_eq_value)
      with ne show False by simp
    qed
    with kg show ?thesis by (force simp: set_alist_delete)
  qed
qed

subsection \<open>A frame is bound to a page\<close>

lemma set_alist_update:
  "distinct (map fst al) \<Longrightarrow>
     set (AList.update k v al) = insert (k, v) {e \<in> set al. fst e \<noteq> k}"
proof (induction al)
  case Nil
  then show ?case by simp
next
  case (Cons a al)
  show ?case
  proof (cases "fst a = k")
    case True
    with Cons.prems have "k \<notin> fst ` set al" by auto
    then have "{e \<in> set al. fst e \<noteq> k} = set al" by auto
    with True show ?thesis by auto
  next
    case False
    with Cons show ?thesis by auto
  qed
qed

lemma distinct_snd_update:
  "distinct (map snd al) \<Longrightarrow> v \<notin> snd ` set al \<Longrightarrow> distinct (map snd (AList.update k v al))"
proof (induction al)
  case Nil
  then show ?case by simp
next
  case (Cons a al)
  then have IH: "distinct (map snd (AList.update k v al))" by simp
  have sub: "snd ` set (AList.update k v al) \<subseteq> insert v (snd ` set al)"
    by (induction al) auto
  show ?case
  proof (cases "fst a = k")
    case True
    with Cons.prems show ?thesis by auto
  next
    case False
    from Cons.prems have "snd a \<notin> snd ` set al" "snd a \<noteq> v" by auto
    with sub have "snd a \<notin> snd ` set (AList.update k v al)" by blast
    with False IH show ?thesis by simp
  qed
qed

lemma bpm_wf_page_table:
  assumes "bpm_wf s" "distinct (map fst pt)" "\<And>f. f \<in> snd ` set pt \<Longrightarrow> frame_valid s f"
  shows "bpm_wf (s\<lparr>page_table := pt\<rparr>)"
proof -
  have fv: "frame_valid (s\<lparr>page_table := pt\<rparr>) g = frame_valid s g" for g
    by (simp add: frame_valid_def)
  from assms show ?thesis unfolding bpm_wf_def by (simp add: fv)
qed

lemma bind_frame_inv:
  assumes "bpm_inv s" "frame_valid s f" "f \<notin> set (page_table_frames s)"
    "f \<notin> set (free_list s)" "pin_count (pages s ! nat f) = 0"
    "page_id p = k" "pin_count p = 1"
  shows "bpm_inv (s\<lparr>page_table := AList.update k f (page_table s),
                   pages := (pages s)[nat f := p],
                   replacer := Pin_erase (replacer s) f\<rparr>)"
proof -
  note I = bpm_invD[OF assms(1)]
  note W = bpm_wfD[OF I(1)]
  note PE = Pin_erase_inv[OF W(2), of f]
  let ?pt = "AList.update k f (page_table s)"
  let ?t = "s\<lparr>page_table := ?pt\<rparr>"
  let ?s = "s\<lparr>page_table := ?pt, pages := (pages s)[nat f := p],
              replacer := Pin_erase (replacer s) f\<rparr>"
  have pt: "set ?pt = insert (k, f) {e \<in> set (page_table s). fst e \<noteq> k}"
    by (rule set_alist_update[OF W(1)])
  have ptf: "g \<in> set (page_table_frames ?s) \<Longrightarrow> g = f \<or> g \<in> set (page_table_frames s)" for g
    by (auto simp: page_table_frames_def pt)
  have ev: "set (evictable (replacer ?s)) = set (evictable (replacer s)) - {f}"
    using PE by simp
  have nth: "(pages s)[nat f := p] ! nat g = (if g = f then p else pages s ! nat g)"
    if "frame_valid s g" for g
    by (rule frame_update_nth[OF assms(2) that])
  from assms(3) have fnot: "f \<notin> snd ` set (page_table s)" by (simp add: page_table_frames_def)
  have wf0: "bpm_wf ?t"
  proof (rule bpm_wf_page_table[OF I(1)])
    show "distinct (map fst ?pt)" using W(1) by (simp add: distinct_update)
    show "frame_valid s g" if "g \<in> snd ` set ?pt" for g
      using that assms(2) W(3)[of g] by (auto simp: pt)
  qed
  have fv0: "frame_valid ?t f" using assms(2) by (simp add: frame_valid_def)
  have "0 \<le> pin_count p" using assms(7) by simp
  moreover have "replacer_inv (Pin_erase (replacer s) f)" using PE by simp
  moreover have "set (evictable (Pin_erase (replacer s) f))
      \<subseteq> insert f (set (evictable (replacer ?t)))"
    using PE by auto
  ultimately have "bpm_wf (?t\<lparr>pages := (pages ?t)[nat f := p],
      replacer := Pin_erase (replacer s) f\<rparr>)"
    by (rule bpm_wf_change[OF wf0 fv0])
  then have wf: "bpm_wf ?s" by simp
  show ?thesis
  proof (rule bpm_invI[OF wf])
    show "capacity (replacer ?s) = pool_size ?s" using I(2) PE by (simp add: pool_size_def)
    show "distinct (page_table_frames ?s)"
      using I(3) fnot by (simp add: page_table_frames_def distinct_snd_update)
    show "distinct (free_list ?s)" using I(4) by simp
    show "g \<notin> set (free_list ?s)" if "g \<in> set (page_table_frames ?s)" for g
      using ptf[OF that] assms(4) I(5)[of g] by auto
    show "page_id (pages ?s ! nat g) = k'" if "(k', g) \<in> set (page_table ?s)" for k' g
    proof (cases "g = f")
      case True
      with that fnot have "k' = k" by (auto simp: pt intro: rev_image_eqI)
      with True assms(2,6) show ?thesis by (simp add: nth)
    next
      case False
      with that have mem: "(k', g) \<in> set (page_table s)" by (auto simp: pt)
      then have "frame_valid s g" using W(3)[of g] by (force simp: image_iff)
      with False I(6)[OF mem] show ?thesis by (simp add: nth)
    qed
    show "pin_count (pages ?s ! nat g) = 0" if "g \<in> set (free_list ?s)" for g
    proof -
      from that have m: "g \<in> set (free_list s)" by simp
      with assms(4) have "g \<noteq> f" by auto
      with W(4)[OF m] I(7)[OF m] show ?thesis by (simp add: nth)
    qed
    show "pin_count (pages ?s ! nat g) = 0" if "g \<in> set (evictable (replacer ?s))" for g
    proof -
      from that ev have m: "g \<in> set (evictable (replacer s))" and "g \<noteq> f" by auto
      with W(5)[OF m] I(8)[OF m] show ?thesis by (simp add: nth)
    qed
    show "g \<in> set (evictable (replacer ?s))"
      if "g \<in> set (page_table_frames ?s)" "pin_count (pages ?s ! nat g) = 0" for g
    proof (cases "g = f")
      case True
      with that(2) assms(2,7) show ?thesis by (simp add: nth)
    next
      case False
      with ptf[OF that(1)] have m: "g \<in> set (page_table_frames s)" by simp
      from ptf_valid[OF I(1) m] that(2) False have "pin_count (pages s ! nat g) = 0"
        by (simp add: nth)
      from I(9)[OF m this] False ev show ?thesis by simp
    qed
  qed
qed

lemma bind_frame_no_orphan:
  assumes "bpm_wf s" "map_of (page_table s) k = None"
    "\<And>g. frame_valid s g \<Longrightarrow> g = f \<or> g \<in> set (page_table_frames s) \<or> g \<in> set (free_list s)"
  shows "no_orphan (s\<lparr>page_table := AList.update k f (page_table s),
                     pages := (pages s)[nat f := p], replacer := r\<rparr>)"
proof (rule no_orphanI)
  let ?s = "s\<lparr>page_table := AList.update k f (page_table s),
              pages := (pages s)[nat f := p], replacer := r\<rparr>"
  fix g
  assume "frame_valid ?s g"
  then have "frame_valid s g" by (simp add: frame_valid_def)
  from assms(2) have "k \<notin> fst ` set (page_table s)" by (simp add: map_of_eq_None_iff)
  then have "page_table ?s = page_table s @ [(k, f)]" by (simp add: update_new_key)
  then have "set (page_table_frames ?s) = insert f (set (page_table_frames s))"
    by (simp add: page_table_frames_def)
  with assms(3)[OF \<open>frame_valid s g\<close>]
  show "g \<in> set (page_table_frames ?s) \<or> g \<in> set (free_list ?s)" by auto
qed

subsection \<open>NewPgImp and FetchPgImp on a miss\<close>

lemma bpm_inv_next_page_id [simp]: "bpm_inv (s\<lparr>next_page_id := n\<rparr>) = bpm_inv s"
  by (simp add: bpm_inv_def page_table_frames_def pool_size_def)

lemma no_orphan_next_page_id [simp]: "no_orphan (s\<lparr>next_page_id := n\<rparr>) = no_orphan s"
  by (simp add: no_orphan_def page_table_frames_def pool_size_def)

lemma map_of_delete_None: "map_of al k = None \<Longrightarrow> map_of (AList.delete k' al) k = None"
  by (simp add: delete_conv')

lemma pick_frame_inv:
  assumes "bpm_inv s" "pick_frame s = Inr (f, s2)"
  shows "(f = - 1 \<and> s2 = s) \<or>
         (f \<noteq> - 1 \<and> bpm_inv s2 \<and> frame_valid s2 f \<and> f \<notin> set (page_table_frames s2) \<and>
          f \<notin> set (free_list s2) \<and> pin_count (pages s2 ! nat f) = 0 \<and>
          (\<forall>k. map_of (page_table s) k = None \<longrightarrow> map_of (page_table s2) k = None) \<and>
          (no_orphan s \<longrightarrow>
             (\<forall>g. frame_valid s2 g \<longrightarrow>
                g = f \<or> g \<in> set (page_table_frames s2) \<or> g \<in> set (free_list s2))))"
proof (cases "free_list s")
  case (Cons f' rest)
  from pick_frame_free[OF Cons] assms(2) have eq: "f = f'" "s2 = s\<lparr>free_list := rest\<rparr>"
    by simp_all
  note F = pick_frame_free_inv[OF assms(1) Cons]
  have fv: "frame_valid s2 g = frame_valid s g" for g by (simp add: eq frame_valid_def)
  have ptf: "page_table_frames s2 = page_table_frames s"
    by (simp add: eq page_table_frames_def)
  have fl2: "free_list s2 = rest" and pg2: "pages s2 = pages s" and pt2: "page_table s2 = page_table s"
    by (simp_all add: eq)
  have "g = f \<or> g \<in> set (page_table_frames s2) \<or> g \<in> set (free_list s2)"
    if "no_orphan s" "frame_valid s2 g" for g
    using no_orphanD[OF that(1), of g] that(2) Cons by (auto simp: fv ptf fl2 eq(1))
  moreover from F(2) have "f \<noteq> - 1" by (simp add: eq(1) frame_valid_not_sentinel)
  moreover from F(1) have "bpm_inv s2" by (simp add: eq(2))
  ultimately show ?thesis using F(2-5) by (simp add: eq(1) fv ptf fl2 pg2 pt2)
next
  case Nil
  show ?thesis
  proof (cases "is_all_spinned (pages s) \<or> Victim (replacer s) = None")
    case True
    with assms(2) pick_frame_all_pinned[OF Nil] pick_frame_declined[OF Nil]
    have "f = - 1 \<and> s2 = s" by auto
    then show ?thesis by simp
  next
    case False
    then obtain v r' where v: "Victim (replacer s) = Some (v, r')" by auto
    let ?k = "page_id (pages s ! nat v)"
    let ?d = "if is_dirty (pages s ! nat v)
              then WritePage (disk s) ?k (data (pages s ! nat v)) else disk s"
    from False have "\<not> is_all_spinned (pages s)" by simp
    from pick_frame_victim[OF bpm_invD(1)[OF assms(1)] Nil this v] assms(2)
    have eq: "f = v" "s2 = s\<lparr>replacer := r', disk := ?d,
        page_table := AList.delete ?k (page_table s)\<rparr>"
      by simp_all
    note V1 = pick_frame_victim_inv(1)[OF assms(1) Nil v, of ?d]
    note V = pick_frame_victim_inv(2-5)[OF assms(1) Nil v]
    have fv: "frame_valid s2 g = frame_valid s g" for g by (simp add: eq frame_valid_def)
    have ptf: "page_table_frames s2 = map snd (AList.delete ?k (page_table s))"
      by (simp add: eq page_table_frames_def)
    have "g = f \<or> g \<in> set (page_table_frames s2) \<or> g \<in> set (free_list s2)"
      if "no_orphan s" "frame_valid s2 g" for g
      using V(4)[OF that(1), of g] that(2) by (auto simp: fv ptf eq(1))
    moreover from V(1) have "f \<noteq> - 1" by (simp add: eq(1) frame_valid_not_sentinel)
    moreover have "bpm_inv s2" using V1 by (simp add: eq(2))
    moreover have "f \<notin> set (free_list s2)" using Nil by (simp add: eq(2))
    moreover have "pin_count (pages s2 ! nat f) = 0" using V(3) by (simp add: eq)
    moreover have "map_of (page_table s2) k = None" if "map_of (page_table s) k = None" for k
      using that by (simp add: eq(2) map_of_delete_None)
    ultimately show ?thesis using V(1,2) by (simp add: fv ptf eq(1))
  qed
qed

lemma NewPgImp_inv:
  assumes "bpm_inv s" "NewPgImp s = Inr (r, s')"
  shows "bpm_inv s' \<and>
         (no_orphan s \<longrightarrow> map_of (page_table s) (next_page_id s) = None \<longrightarrow> no_orphan s')"
proof -
  from assms(2) obtain np s1 where a: "AllocatePage s = Inr (np, s1)"
    by (auto simp: NewPgImp_def split: sum.splits)
  from assms(2) a obtain f s2 where p: "pick_frame s1 = Inr (f, s2)"
    by (auto simp: NewPgImp_def split: sum.splits)
  note A = AllocatePage_Inr[OF a]
  from A have s1: "s1 = s\<lparr>next_page_id := next_page_id s + num_instances s\<rparr>"
    and np: "np = next_page_id s" by simp_all
  from assms(1) have inv1: "bpm_inv s1" by (simp add: s1)
  have no1: "no_orphan s1 = no_orphan s" by (simp add: s1)
  have pt1: "page_table s1 = page_table s" by (simp add: s1)
  from pick_frame_inv[OF inv1 p] show ?thesis
  proof (elim disjE conjE)
    assume "f = - 1" "s2 = s1"
    with assms(2) a p have "s' = s1" by (simp add: NewPgImp_def)
    with inv1 no1 show ?thesis by simp
  next
    assume f: "f \<noteq> - 1" and inv2: "bpm_inv s2" and fv: "frame_valid s2 f"
      and nptf: "f \<notin> set (page_table_frames s2)" and nfree: "f \<notin> set (free_list s2)"
      and pin: "pin_count (pages s2 ! nat f) = 0"
      and keys: "\<forall>k. map_of (page_table s1) k = None \<longrightarrow> map_of (page_table s2) k = None"
      and orph: "no_orphan s1 \<longrightarrow>
             (\<forall>g. frame_valid s2 g \<longrightarrow>
                g = f \<or> g \<in> set (page_table_frames s2) \<or> g \<in> set (free_list s2))"
    let ?p = "ResetMemory ((pages s2 ! nat f)\<lparr>page_id := np, is_dirty := False,
                          pin_count := pin_count (pages s2 ! nat f) + 1\<rparr>)"
    let ?s = "s2\<lparr>page_table := AList.update np f (page_table s2),
                pages := (pages s2)[nat f := ?p],
                replacer := Pin_erase (replacer s2) f\<rparr>"
    from NewPgImp_Some[OF bpm_invD(1)[OF inv2] a p fv] assms(2) have s': "s' = ?s" by simp
    have "page_id ?p = np" "pin_count ?p = 1" using pin by (simp_all add: ResetMemory_def)
    from bind_frame_inv[OF inv2 fv nptf nfree pin this] have "bpm_inv ?s" .
    moreover have "no_orphan ?s"
      if "no_orphan s" "map_of (page_table s) (next_page_id s) = None"
    proof (rule bind_frame_no_orphan[OF bpm_invD(1)[OF inv2]])
      from that(2) keys show "map_of (page_table s2) np = None" by (simp add: pt1 np)
      from that(1) orph no1
      show "g = f \<or> g \<in> set (page_table_frames s2) \<or> g \<in> set (free_list s2)"
        if "frame_valid s2 g" for g using that by blast
    qed
    ultimately show ?thesis by (simp add: s')
  qed
qed

lemma FetchPgImp_miss_inv:
  assumes "bpm_inv s" "map_of (page_table s) pid = None" "FetchPgImp s pid = Inr (r, s')"
  shows "bpm_inv s' \<and> (no_orphan s \<longrightarrow> no_orphan s')"
proof -
  from assms(2,3) obtain f s2 where p: "pick_frame s = Inr (f, s2)"
    by (auto simp: FetchPgImp_def split: sum.splits)
  from pick_frame_inv[OF assms(1) p] show ?thesis
  proof (elim disjE conjE)
    assume "f = - 1" "s2 = s"
    with assms(2,3) p have "s' = s" by (simp add: FetchPgImp_def)
    with assms(1) show ?thesis by simp
  next
    assume f: "f \<noteq> - 1" and inv2: "bpm_inv s2" and fv: "frame_valid s2 f"
      and nptf: "f \<notin> set (page_table_frames s2)" and nfree: "f \<notin> set (free_list s2)"
      and pin: "pin_count (pages s2 ! nat f) = 0"
      and keys: "\<forall>k. map_of (page_table s) k = None \<longrightarrow> map_of (page_table s2) k = None"
      and orph: "no_orphan s \<longrightarrow>
             (\<forall>g. frame_valid s2 g \<longrightarrow>
                g = f \<or> g \<in> set (page_table_frames s2) \<or> g \<in> set (free_list s2))"
    let ?p = "(pages s2 ! nat f)\<lparr>page_id := pid, is_dirty := False,
                          data := ReadPage (disk s2) pid,
                          pin_count := pin_count (pages s2 ! nat f) + 1\<rparr>"
    let ?s = "s2\<lparr>page_table := AList.update pid f (page_table s2),
                pages := (pages s2)[nat f := ?p],
                replacer := Pin_erase (replacer s2) f\<rparr>"
    from FetchPgImp_miss_Some[OF bpm_invD(1)[OF inv2] assms(2) p fv] assms(3)
    have s': "s' = ?s" by simp
    have "page_id ?p = pid" "pin_count ?p = 1" using pin by simp_all
    from bind_frame_inv[OF inv2 fv nptf nfree pin this] have "bpm_inv ?s" .
    moreover have "no_orphan ?s" if "no_orphan s"
    proof (rule bind_frame_no_orphan[OF bpm_invD(1)[OF inv2]])
      from assms(2) keys show "map_of (page_table s2) pid = None" by simp
      from that orph
      show "g = f \<or> g \<in> set (page_table_frames s2) \<or> g \<in> set (free_list s2)"
        if "frame_valid s2 g" for g using that by blast
    qed
    ultimately show ?thesis by (simp add: s')
  qed
qed

subsection \<open>Flushing\<close>

lemma map_of_ptf: "map_of (page_table s) pid = Some f \<Longrightarrow> f \<in> set (page_table_frames s)"
  by (force simp: page_table_frames_def dest: map_of_SomeD)

lemma no_orphan_frames:
  assumes "no_orphan s" "page_table s' = page_table s" "free_list s' = free_list s"
    "length (pages s') = length (pages s)"
  shows "no_orphan s'"
  using assms by (simp add: no_orphan_def page_table_frames_def pool_size_def)

lemma bpm_inv_same_frames:
  assumes "bpm_inv s" "page_table s' = page_table s" "free_list s' = free_list s"
    "replacer s' = replacer s" "length (pages s') = length (pages s)"
    "\<And>i. pin_count (pages s' ! i) = pin_count (pages s ! i)"
    "\<And>i. page_id (pages s' ! i) = page_id (pages s ! i)"
  shows "bpm_inv s'"
proof -
  note I = bpm_invD[OF assms(1)]
  note W = bpm_wfD[OF I(1)]
  have fv: "frame_valid s' g = frame_valid s g" for g by (simp add: frame_valid_def assms(5))
  have ptf: "page_table_frames s' = page_table_frames s"
    by (simp add: page_table_frames_def assms(2))
  have pins: "0 \<le> pin_count p" if "p \<in> set (pages s')" for p
  proof -
    from that obtain i where i: "i < length (pages s')" "p = pages s' ! i"
      by (auto simp: in_set_conv_nth)
    with assms(5) have "pages s ! i \<in> set (pages s)" by simp
    from W(6)[OF this] i(2) assms(6)[of i] show ?thesis by simp
  qed
  have wf: "bpm_wf s'"
    unfolding bpm_wf_def using W(1-5) pins by (simp add: assms(2-4) fv)
  show ?thesis
    by (rule bpm_invI[OF wf])
       (use I in \<open>simp_all add: assms(2-4,6,7) ptf pool_size_def assms(5)\<close>)
qed

lemma FlushPgImp_inv:
  assumes "bpm_inv s" "FlushPgImp s pid = Inr (r, s')"
  shows "bpm_inv s' \<and> (no_orphan s \<longrightarrow> no_orphan s')"
proof (cases "map_of (page_table s) pid")
  case None
  with assms show ?thesis by (simp add: FlushPgImp_def)
next
  case (Some f)
  let ?s = "s\<lparr>disk := WritePage (disk s) (page_id (pages s ! nat f)) (data (pages s ! nat f)),
              pages := (pages s)[nat f := (pages s ! nat f)\<lparr>is_dirty := False\<rparr>]\<rparr>"
  from FlushPgImp_resident[OF bpm_invD(1)[OF assms(1)] Some] assms(2) have s': "s' = ?s" by simp
  have pin: "pin_count (pages ?s ! i) = pin_count (pages s ! i)" for i
    by (cases "i = nat f"; cases "i < length (pages s)") (simp_all add: list_update_beyond)
  have pid: "page_id (pages ?s ! i) = page_id (pages s ! i)" for i
    by (cases "i = nat f"; cases "i < length (pages s)") (simp_all add: list_update_beyond)
  have "bpm_inv ?s" by (rule bpm_inv_same_frames[OF assms(1) _ _ _ _ pin pid]) simp_all
  moreover have "no_orphan ?s" if "no_orphan s" by (rule no_orphan_frames[OF that]) simp_all
  ultimately show ?thesis by (simp add: s')
qed

lemma FlushAll_loop_frames:
  "FlushAll_loop es s = Inr s' \<Longrightarrow>
     page_table s' = page_table s \<and> free_list s' = free_list s \<and> replacer s' = replacer s \<and>
     length (pages s') = length (pages s) \<and>
     (\<forall>i. pin_count (pages s' ! i) = pin_count (pages s ! i) \<and>
          page_id (pages s' ! i) = page_id (pages s ! i))"
proof (induction es arbitrary: s)
  case Nil
  then show ?case by simp
next
  case (Cons e es)
  let ?f = "snd e"
  let ?s = "s\<lparr>disk := WritePage (disk s) (page_id (pages s ! nat ?f)) (data (pages s ! nat ?f)),
              pages := (pages s)[nat ?f := (pages s ! nat ?f)\<lparr>is_dirty := False\<rparr>]\<rparr>"
  from Cons.prems have "FlushAll_loop es ?s = Inr s'" by (simp add: Let_def split: if_splits)
  note IH = Cons.IH[OF this]
  have pin: "pin_count (pages ?s ! i) = pin_count (pages s ! i)" for i
    by (cases "i = nat ?f"; cases "i < length (pages s)") (simp_all add: list_update_beyond)
  have pid: "page_id (pages ?s ! i) = page_id (pages s ! i)" for i
    by (cases "i = nat ?f"; cases "i < length (pages s)") (simp_all add: list_update_beyond)
  from IH pin pid show ?case by simp
qed

lemma FlushAllPgsImp_inv:
  assumes "bpm_inv s" "FlushAllPgsImp s = Inr s'"
  shows "bpm_inv s' \<and> (no_orphan s \<longrightarrow> no_orphan s')"
proof -
  from assms(2) have "FlushAll_loop (page_table s) s = Inr s'" by (simp add: FlushAllPgsImp_def)
  note F = FlushAll_loop_frames[OF this]
  from F have "bpm_inv s'" by (intro bpm_inv_same_frames[OF assms(1)]) simp_all
  moreover from F have "no_orphan s'" if "no_orphan s"
    by (intro no_orphan_frames[OF that]) simp_all
  ultimately show ?thesis by simp
qed

subsection \<open>FetchPgImp on a hit\<close>

lemma FetchPgImp_hit_inv:
  assumes "bpm_inv s" "map_of (page_table s) pid = Some f" "FetchPgImp s pid = Inr (r, s')"
  shows "bpm_inv s' \<and> (no_orphan s \<longrightarrow> no_orphan s')"
proof -
  note I = bpm_invD[OF assms(1)]
  note W = bpm_wfD[OF I(1)]
  note PE = Pin_erase_inv[OF W(2), of f]
  let ?p = "(pages s ! nat f)\<lparr>pin_count := pin_count (pages s ! nat f) + 1\<rparr>"
  let ?s = "s\<lparr>pages := (pages s)[nat f := ?p], replacer := Pin_erase (replacer s) f\<rparr>"
  from FetchPgImp_hit[OF I(1) assms(2)] assms(3) have s': "s' = ?s" by simp
  note fmem = map_of_ptf[OF assms(2)]
  note fv = ptf_valid[OF I(1) fmem]
  have nth: "(pages s)[nat f := ?p] ! nat g = (if g = f then ?p else pages s ! nat g)"
    if "frame_valid s g" for g
    by (rule frame_update_nth[OF fv that])
  have ptf: "page_table_frames ?s = page_table_frames s" by (simp add: page_table_frames_def)
  have ev: "set (evictable (replacer ?s)) = set (evictable (replacer s)) - {f}"
    using PE by simp
  have pin0: "0 \<le> pin_count (pages s ! nat f)" by (rule frame_pin_nonneg[OF I(1) fv])
  have wf: "bpm_wf ?s"
  proof (rule bpm_wf_change[OF I(1) fv])
    show "0 \<le> pin_count ?p" using pin0 by simp
    show "replacer_inv (Pin_erase (replacer s) f)" using PE by simp
    show "set (evictable (Pin_erase (replacer s) f)) \<subseteq> insert f (set (evictable (replacer s)))"
      using PE by auto
  qed
  have "bpm_inv ?s"
  proof (rule bpm_invI[OF wf])
    show "capacity (replacer ?s) = pool_size ?s" using I(2) PE by (simp add: pool_size_def)
    show "distinct (page_table_frames ?s)" using I(3) by (simp add: ptf)
    show "distinct (free_list ?s)" using I(4) by simp
    show "g \<notin> set (free_list ?s)" if "g \<in> set (page_table_frames ?s)" for g
      using that I(5)[of g] by (simp add: ptf)
    show "page_id (pages ?s ! nat g) = k" if "(k, g) \<in> set (page_table ?s)" for k g
    proof -
      from that have mem: "(k, g) \<in> set (page_table s)" by simp
      then have "frame_valid s g" using W(3)[of g] by (force simp: image_iff)
      with I(6)[OF mem] show ?thesis by (auto simp: nth)
    qed
    show "pin_count (pages ?s ! nat g) = 0" if "g \<in> set (free_list ?s)" for g
    proof -
      from that have m: "g \<in> set (free_list s)" by simp
      with I(5)[OF fmem] have "g \<noteq> f" by auto
      with W(4)[OF m] I(7)[OF m] show ?thesis by (simp add: nth)
    qed
    show "pin_count (pages ?s ! nat g) = 0" if "g \<in> set (evictable (replacer ?s))" for g
    proof -
      from that ev have m: "g \<in> set (evictable (replacer s))" and "g \<noteq> f" by auto
      with W(5)[OF m] I(8)[OF m] show ?thesis by (simp add: nth)
    qed
    show "g \<in> set (evictable (replacer ?s))"
      if "g \<in> set (page_table_frames ?s)" "pin_count (pages ?s ! nat g) = 0" for g
    proof (cases "g = f")
      case True
      with that(2) fv pin0 show ?thesis by (simp add: nth)
    next
      case False
      from that(1) have m: "g \<in> set (page_table_frames s)" by (simp add: ptf)
      from ptf_valid[OF I(1) m] that(2) False have "pin_count (pages s ! nat g) = 0"
        by (simp add: nth)
      from I(9)[OF m this] False ev show ?thesis by simp
    qed
  qed
  moreover have "no_orphan ?s" if "no_orphan s" by (rule no_orphan_frames[OF that]) simp_all
  ultimately show ?thesis by (simp add: s')
qed

lemma FetchPgImp_inv:
  assumes "bpm_inv s" "FetchPgImp s pid = Inr (r, s')"
  shows "bpm_inv s' \<and> (no_orphan s \<longrightarrow> no_orphan s')"
proof (cases "map_of (page_table s) pid")
  case None
  from FetchPgImp_miss_inv[OF assms(1) None assms(2)] show ?thesis .
next
  case (Some f)
  from FetchPgImp_hit_inv[OF assms(1) Some assms(2)] show ?thesis .
qed

lemma evictable_not_full:
  assumes "bpm_inv s" "frame_valid s f" "f \<notin> set (evictable (replacer s))"
  shows "length (evictable (replacer s)) \<noteq> capacity (replacer s)"
proof -
  note I = bpm_invD[OF assms(1)]
  note W = bpm_wfD[OF I(1)]
  let ?E = "set (evictable (replacer s))"
  let ?V = "set (map int [0..<pool_size s])"
  have "?E \<subseteq> ?V"
  proof
    fix g assume "g \<in> ?E"
    from W(5)[OF this] show "g \<in> ?V" by (simp only: frame_valid_iff)
  qed
  moreover from assms(2) have "f \<in> ?V" by (simp only: frame_valid_iff)
  ultimately have "?E \<subset> ?V" using assms(3) by blast
  then have "card ?E < card ?V" by (intro psubset_card_mono) simp_all
  moreover have "card ?V = pool_size s"
    by (simp add: card_image del: set_map add: set_map[symmetric] distinct_card distinct_map)
  moreover have "card ?E = length (evictable (replacer s))"
    by (rule distinct_card[OF replacer_inv_distinct[OF W(2)]])
  ultimately show ?thesis using I(2) by simp
qed

subsection \<open>Unpinning, deleting, and every reachable state\<close>

lemma UnpinPgImp_cases:
  assumes "bpm_wf s" "map_of (page_table s) pid = Some f"
  shows "UnpinPgImp s pid d =
    (if pin_count (pages s ! nat f) \<le> 0
     then Inr (False, s\<lparr>pages := (pages s)[nat f := (pages s ! nat f)\<lparr>is_dirty := d\<rparr>]\<rparr>)
     else Inr (True,
           s\<lparr>pages := (pages s)[nat f := (pages s ! nat f)\<lparr>is_dirty := d,
                          pin_count := pin_count (pages s ! nat f) - 1\<rparr>],
             replacer := (if pin_count (pages s ! nat f) - 1 = 0
                          then Unpin (replacer s) f else replacer s)\<rparr>))"
  using assms(2) bpm_wf_lookup[OF assms] by (simp add: UnpinPgImp_def Let_def)

lemma UnpinPgImp_inv:
  assumes "bpm_inv s" "UnpinPgImp s pid d = Inr (r, s')"
  shows "bpm_inv s' \<and> (no_orphan s \<longrightarrow> no_orphan s')"
proof (cases "map_of (page_table s) pid")
  case None
  with assms show ?thesis by (simp add: UnpinPgImp_def)
next
  case (Some f)
  note I = bpm_invD[OF assms(1)]
  note W = bpm_wfD[OF I(1)]
  note fmem = map_of_ptf[OF Some]
  note fv = ptf_valid[OF I(1) fmem]
  note U = UnpinPgImp_cases[OF I(1) Some, of d]
  show ?thesis
  proof (cases "pin_count (pages s ! nat f) \<le> 0")
    case True
    let ?s = "s\<lparr>pages := (pages s)[nat f := (pages s ! nat f)\<lparr>is_dirty := d\<rparr>]\<rparr>"
    from U True assms(2) have s': "s' = ?s" by simp
    have pin: "pin_count (pages ?s ! i) = pin_count (pages s ! i)" for i
      by (cases "i = nat f"; cases "i < length (pages s)") (simp_all add: list_update_beyond)
    have pid: "page_id (pages ?s ! i) = page_id (pages s ! i)" for i
      by (cases "i = nat f"; cases "i < length (pages s)") (simp_all add: list_update_beyond)
    have "bpm_inv ?s" by (rule bpm_inv_same_frames[OF assms(1) _ _ _ _ pin pid]) simp_all
    moreover have "no_orphan ?s" if "no_orphan s" by (rule no_orphan_frames[OF that]) simp_all
    ultimately show ?thesis by (simp add: s')
  next
    case False
    let ?p = "(pages s ! nat f)\<lparr>is_dirty := d, pin_count := pin_count (pages s ! nat f) - 1\<rparr>"
    define rr where
      "rr = (if pin_count (pages s ! nat f) - 1 = 0 then Unpin (replacer s) f else replacer s)"
    let ?s = "s\<lparr>pages := (pages s)[nat f := ?p], replacer := rr\<rparr>"
    from U False assms(2) have s': "s' = ?s" by (simp add: rr_def)
    from False I(8)[of f] have fnotE: "f \<notin> set (evictable (replacer s))" by auto
    note UI = Unpin_inv[OF W(2), of f]
    from UI fnotE evictable_not_full[OF assms(1) fv fnotE]
    have evU: "evictable (Unpin (replacer s) f) = f # evictable (replacer s)" by simp
    have ev: "set (evictable rr) =
        (if pin_count (pages s ! nat f) - 1 = 0 then insert f (set (evictable (replacer s)))
         else set (evictable (replacer s)))"
      by (simp add: rr_def evU)
    have nth: "(pages s)[nat f := ?p] ! nat g = (if g = f then ?p else pages s ! nat g)"
      if "frame_valid s g" for g
      by (rule frame_update_nth[OF fv that])
    have pinf: "pin_count ((pages s)[nat f := ?p] ! nat f) = pin_count (pages s ! nat f) - 1"
      using nth[OF fv] by simp
    have ptf: "page_table_frames ?s = page_table_frames s" by (simp add: page_table_frames_def)
    have wf: "bpm_wf ?s"
    proof (rule bpm_wf_change[OF I(1) fv])
      show "0 \<le> pin_count ?p" using False by simp
      show "replacer_inv rr" using UI W(2) by (simp add: rr_def)
      show "set (evictable rr) \<subseteq> insert f (set (evictable (replacer s)))"
        by (auto simp: ev)
    qed
    have "bpm_inv ?s"
    proof (rule bpm_invI[OF wf])
      show "capacity (replacer ?s) = pool_size ?s"
        using I(2) UI by (simp add: pool_size_def rr_def)
      show "distinct (page_table_frames ?s)" using I(3) by (simp add: ptf)
      show "distinct (free_list ?s)" using I(4) by simp
      show "g \<notin> set (free_list ?s)" if "g \<in> set (page_table_frames ?s)" for g
        using that I(5)[of g] by (simp add: ptf)
      show "page_id (pages ?s ! nat g) = k" if "(k, g) \<in> set (page_table ?s)" for k g
      proof -
        from that have mem: "(k, g) \<in> set (page_table s)" by simp
        then have "frame_valid s g" using W(3)[of g] by (force simp: image_iff)
        with I(6)[OF mem] show ?thesis by (auto simp: nth)
      qed
      show "pin_count (pages ?s ! nat g) = 0" if "g \<in> set (free_list ?s)" for g
      proof -
        from that have m: "g \<in> set (free_list s)" by simp
        with I(5)[OF fmem] have "g \<noteq> f" by auto
        with W(4)[OF m] I(7)[OF m] show ?thesis by (simp add: nth)
      qed
      show "pin_count (pages ?s ! nat g) = 0" if "g \<in> set (evictable (replacer ?s))" for g
      proof (cases "g = f")
        case True
        from that have "f \<in> set (evictable rr)" by (simp add: True)
        with fnotE have "pin_count (pages s ! nat f) - 1 = 0"
          by (auto simp: ev split: if_splits)
        with True pinf show ?thesis by simp
      next
        case False
        from that have "g \<in> set (evictable rr)" by simp
        with False have m: "g \<in> set (evictable (replacer s))"
          by (auto simp: ev split: if_splits)
        with False W(5)[OF m] I(8)[OF m] show ?thesis by (simp add: nth)
      qed
      show "g \<in> set (evictable (replacer ?s))"
        if "g \<in> set (page_table_frames ?s)" "pin_count (pages ?s ! nat g) = 0" for g
      proof (cases "g = f")
        case True
        with that(2) pinf have "pin_count (pages s ! nat f) - 1 = 0" by simp
        with True show ?thesis by (simp add: ev)
      next
        case False
        from that(1) have m: "g \<in> set (page_table_frames s)" by (simp add: ptf)
        from ptf_valid[OF I(1) m] that(2) False have "pin_count (pages s ! nat g) = 0"
          by (simp add: nth)
        from I(9)[OF m this] show ?thesis by (simp add: ev)
      qed
    qed
    moreover have "no_orphan ?s" if "no_orphan s" by (rule no_orphan_frames[OF that]) simp_all
    ultimately show ?thesis by (simp add: s')
  qed
qed

lemma distinct_snd_unique:
  assumes "distinct (map snd al)" "(k, v) \<in> set al" "(k', v) \<in> set al"
  shows "k = k'"
proof -
  from assms(1) have "inj_on snd (set al)" by (simp add: distinct_map)
  from inj_onD[OF this _ assms(2,3)] show ?thesis by simp
qed

lemma DeletePgImp_inv:
  assumes "bpm_inv s" "DeletePgImp s pid = Inr (r, s')"
  shows "bpm_inv s' \<and> (no_orphan s \<longrightarrow> no_orphan s')"
proof (cases "map_of (page_table s) pid")
  case None
  with assms show ?thesis by (simp add: DeletePgImp_def)
next
  case (Some f)
  note I = bpm_invD[OF assms(1)]
  note W = bpm_wfD[OF I(1)]
  note fmem = map_of_ptf[OF Some]
  note fv = ptf_valid[OF I(1) fmem]
  from Some have entry: "(pid, f) \<in> set (page_table s)" by (rule map_of_SomeD)
  show ?thesis
  proof (cases "pin_count (pages s ! nat f) = 0")
    case False
    from DeletePgImp_pinned[OF I(1) Some False] assms show ?thesis by simp
  next
    case True
    let ?p = "ResetMemory ((pages s ! nat f)\<lparr>page_id := INVALID_PAGE_ID, is_dirty := False\<rparr>)"
    let ?d = "if is_dirty (pages s ! nat f)
              then WritePage (disk s) (page_id (pages s ! nat f)) (data (pages s ! nat f))
              else disk s"
    let ?s = "s\<lparr>disk := ?d, pages := (pages s)[nat f := ?p],
                free_list := free_list s @ [f],
                page_table := AList.delete pid (page_table s)\<rparr>"
    from DeletePgImp_unpinned[OF I(1) Some True] assms(2) have s': "s' = ?s" by simp
    have pinp: "pin_count ?p = 0" using True by (simp add: ResetMemory_def)
    have nth: "(pages s)[nat f := ?p] ! nat g = (if g = f then ?p else pages s ! nat g)"
      if "frame_valid s g" for g
      by (rule frame_update_nth[OF fv that])
    have fvs: "frame_valid ?s g = frame_valid s g" for g by (simp add: frame_valid_def)
    note pt = set_alist_delete[of pid "page_table s"]
    have ptfsub: "g \<in> set (page_table_frames s) \<and> g \<noteq> f"
      if "g \<in> set (page_table_frames ?s)" for g
    proof -
      from that obtain k where k: "(k, g) \<in> set (page_table s)" "k \<noteq> pid"
        by (auto simp: page_table_frames_def pt)
      have "g \<noteq> f"
      proof
        assume "g = f"
        with k(1) entry I(3) have "k = pid"
          by (auto simp: page_table_frames_def dest: distinct_snd_unique)
        with k(2) show False by simp
      qed
      with k(1) show ?thesis by (force simp: page_table_frames_def)
    qed
    have wf: "bpm_wf ?s"
      unfolding bpm_wf_def
    proof (intro conjI ballI)
      show "distinct (map fst (page_table ?s))" using W(1) by (simp add: distinct_delete)
      show "replacer_inv (replacer ?s)" using W(2) by simp
      show "frame_valid ?s g" if "g \<in> set (map snd (page_table ?s))" for g
        using that W(3)[of g] by (auto simp: fvs pt)
      show "frame_valid ?s g" if "g \<in> set (free_list ?s)" for g
        using that W(4)[of g] fv by (auto simp: fvs)
      show "frame_valid ?s g" if "g \<in> set (evictable (replacer ?s))" for g
        using that W(5)[of g] by (simp add: fvs)
      show "0 \<le> pin_count q" if "q \<in> set (pages ?s)" for q
      proof -
        from that have "q \<in> set ((pages s)[nat f := ?p])" by simp
        from pins_update[OF W(6) _ this] pinp show ?thesis by simp
      qed
    qed
    have "bpm_inv ?s"
    proof (rule bpm_invI[OF wf])
      show "capacity (replacer ?s) = pool_size ?s" using I(2) by (simp add: pool_size_def)
      show "distinct (page_table_frames ?s)"
        using I(3) by (simp add: page_table_frames_def distinct_snd_delete)
      show "distinct (free_list ?s)" using I(4) I(5)[OF fmem] by simp
      show "g \<notin> set (free_list ?s)" if "g \<in> set (page_table_frames ?s)" for g
        using ptfsub[OF that] I(5)[of g] by simp
      show "page_id (pages ?s ! nat g) = k" if "(k, g) \<in> set (page_table ?s)" for k g
      proof -
        from that have mem: "(k, g) \<in> set (page_table s)" by (simp add: pt)
        from that have "g \<in> set (page_table_frames ?s)" by (force simp: page_table_frames_def)
        from ptfsub[OF this] ptf_valid[OF I(1), of g] I(6)[OF mem] show ?thesis
          by (simp add: nth)
      qed
      show "pin_count (pages ?s ! nat g) = 0" if "g \<in> set (free_list ?s)" for g
      proof (cases "g = f")
        case True
        with fv pinp show ?thesis by (simp add: nth)
      next
        case False
        with that have m: "g \<in> set (free_list s)" by simp
        with False W(4)[OF m] I(7)[OF m] show ?thesis by (simp add: nth)
      qed
      show "pin_count (pages ?s ! nat g) = 0" if "g \<in> set (evictable (replacer ?s))" for g
      proof (cases "g = f")
        case True
        with fv pinp show ?thesis by (simp add: nth)
      next
        case False
        from that have m: "g \<in> set (evictable (replacer s))" by simp
        with False W(5)[OF m] I(8)[OF m] show ?thesis by (simp add: nth)
      qed
      show "g \<in> set (evictable (replacer ?s))"
        if "g \<in> set (page_table_frames ?s)" "pin_count (pages ?s ! nat g) = 0" for g
      proof -
        from ptfsub[OF that(1)] have m: "g \<in> set (page_table_frames s)" and ne: "g \<noteq> f"
          by simp_all
        from ptf_valid[OF I(1) m] that(2) ne have "pin_count (pages s ! nat g) = 0"
          by (simp add: nth)
        from I(9)[OF m this] show ?thesis by simp
      qed
    qed
    moreover have "no_orphan ?s" if no: "no_orphan s"
    proof (rule no_orphanI)
      fix g assume "frame_valid ?s g"
      then have gv: "frame_valid s g" by (simp add: fvs)
      show "g \<in> set (page_table_frames ?s) \<or> g \<in> set (free_list ?s)"
      proof (cases "g = f")
        case True
        then show ?thesis by simp
      next
        case False
        from no_orphanD[OF no gv] show ?thesis
        proof
          assume "g \<in> set (free_list s)"
          then show ?thesis by simp
        next
          assume "g \<in> set (page_table_frames s)"
          then obtain k where k: "(k, g) \<in> set (page_table s)" by (auto simp: ptf_entry)
          have "k \<noteq> pid"
          proof
            assume "k = pid"
            with k entry W(1) have "g = f" by (metis eq_key_imp_eq_value)
            with False show False by simp
          qed
          with k have "(k, g) \<in> set (page_table ?s)" by (simp add: pt)
          then show ?thesis by (force simp: page_table_frames_def)
        qed
      qed
    qed
    ultimately show ?thesis by (simp add: s')
  qed
qed

lemma apply_op_inv:
  assumes "bpm_inv s" "apply_op x s = Inr (r, s')"
  shows "bpm_inv s'"
    and "no_orphan s \<Longrightarrow> (x = NewPage \<longrightarrow> map_of (page_table s) (next_page_id s) = None) \<Longrightarrow>
           no_orphan s'"
proof -
  have "bpm_inv s' \<and>
    (no_orphan s \<longrightarrow> (x = NewPage \<longrightarrow> map_of (page_table s) (next_page_id s) = None) \<longrightarrow>
       no_orphan s')"
  proof (cases x)
    case NewPage
    with assms(2) obtain r0 where "NewPgImp s = Inr (r0, s')" by (auto split: sum.splits)
    from NewPgImp_inv[OF assms(1) this] NewPage show ?thesis by simp
  next
    case (FetchPage pid)
    with assms(2) obtain r0 where "FetchPgImp s pid = Inr (r0, s')" by (auto split: sum.splits)
    from FetchPgImp_inv[OF assms(1) this] show ?thesis by simp
  next
    case (UnpinPage pid d)
    with assms(2) obtain r0 where "UnpinPgImp s pid d = Inr (r0, s')" by (auto split: sum.splits)
    from UnpinPgImp_inv[OF assms(1) this] show ?thesis by simp
  next
    case (FlushPage pid)
    with assms(2) obtain r0 where "FlushPgImp s pid = Inr (r0, s')" by (auto split: sum.splits)
    from FlushPgImp_inv[OF assms(1) this] show ?thesis by simp
  next
    case FlushAllPages
    with assms(2) have "FlushAllPgsImp s = Inr s'" by (auto split: sum.splits)
    from FlushAllPgsImp_inv[OF assms(1) this] show ?thesis by simp
  next
    case (DeletePage pid)
    with assms(2) obtain r0 where "DeletePgImp s pid = Inr (r0, s')" by (auto split: sum.splits)
    from DeletePgImp_inv[OF assms(1) this] show ?thesis by simp
  qed
  then show "bpm_inv s'"
    and "no_orphan s \<Longrightarrow> (x = NewPage \<longrightarrow> map_of (page_table s) (next_page_id s) = None) \<Longrightarrow>
           no_orphan s'"
    by blast+
qed

lemma reachable_inv: "reachable s \<Longrightarrow> bpm_inv s"
proof (induction rule: reachable.induct)
  case (reachable_init psize ninst idx dm s)
  from init_inv[OF this] show ?case by simp
next
  case (reachable_step s x r s')
  from apply_op_inv(1)[OF reachable_step.IH reachable_step.hyps(2)] show ?case .
qed

text \<open>
  So the hypothesis \<open>bpm_wf\<close> of the statements about single operations holds in every
  state a run can reach.
\<close>

lemma reachable_wf: "reachable s \<Longrightarrow> bpm_wf s"
  by (rule bpm_invD(1)[OF reachable_inv])

lemma reachable_fresh_inv: "reachable_fresh s \<Longrightarrow> bpm_inv s \<and> no_orphan s"
proof (induction rule: reachable_fresh.induct)
  case (reachable_fresh_init psize ninst idx dm s)
  from init_inv[OF this] show ?case .
next
  case (reachable_fresh_step s x r s')
  from reachable_fresh_step.IH have i: "bpm_inv s" and n: "no_orphan s" by simp_all
  from apply_op_inv[OF i reachable_fresh_step.hyps(2)] n reachable_fresh_step.hyps(3)
  show ?case by simp
qed

lemma reachable_fresh_reachable: "reachable_fresh s \<Longrightarrow> reachable s"
  by (induction rule: reachable_fresh.induct) (auto intro: reachable.intros)

subsection \<open>Counting the frames\<close>

lemma card_valid_frames: "card (set (map int [0..<n])) = n"
proof -
  have "distinct (map int [0..<n])" by (simp add: distinct_map)
  from distinct_card[OF this] show ?thesis by simp
qed

lemma frames_count:
  assumes "bpm_inv s"
  shows "length (page_table s) + length (free_list s) \<le> pool_size s"
    and "no_orphan s \<Longrightarrow> length (page_table s) + length (free_list s) = pool_size s"
proof -
  note I = bpm_invD[OF assms]
  note W = bpm_wfD[OF I(1)]
  let ?T = "set (page_table_frames s)" and ?F = "set (free_list s)"
  let ?V = "set (map int [0..<pool_size s])"
  have len: "length (page_table s) = length (page_table_frames s)"
    by (simp add: page_table_frames_def)
  have disj: "?T \<inter> ?F = {}" using I(5) by blast
  have "card (?T \<union> ?F) = card ?T + card ?F" by (rule card_Un_disjoint[OF _ _ disj]) simp_all
  also have "\<dots> = length (page_table s) + length (free_list s)"
    by (simp only: distinct_card[OF I(3)] distinct_card[OF I(4)] len)
  finally have c: "card (?T \<union> ?F) = length (page_table s) + length (free_list s)" .
  have sub: "?T \<union> ?F \<subseteq> ?V"
  proof
    fix g assume "g \<in> ?T \<union> ?F"
    then have "frame_valid s g" using ptf_valid[OF I(1), of g] W(4)[of g] by blast
    then show "g \<in> ?V" by (simp only: frame_valid_iff)
  qed
  have "card (?T \<union> ?F) \<le> card ?V" by (rule card_mono[OF _ sub]) simp
  with c show "length (page_table s) + length (free_list s) \<le> pool_size s"
    by (simp only: card_valid_frames)
  assume no: "no_orphan s"
  have "?V \<subseteq> ?T \<union> ?F"
  proof
    fix g assume "g \<in> ?V"
    then have "frame_valid s g" by (simp only: frame_valid_iff)
    from no_orphanD[OF no this] show "g \<in> ?T \<union> ?F" by blast
  qed
  with sub have "?T \<union> ?F = ?V" by blast
  with c show "length (page_table s) + length (free_list s) = pool_size s"
    by (simp only: card_valid_frames)
qed

lemma resident_split:
  "length (page_table s) =
     length (pinned_resident_frames s) + length (unpinned_resident_frames s)"
proof -
  have "length (pinned_resident_frames s) + length (unpinned_resident_frames s) =
      length (page_table_frames s)"
    unfolding pinned_resident_frames_def unpinned_resident_frames_def
    by (rule sum_length_filter_compl)
  then show ?thesis by (simp add: page_table_frames_def)
qed

lemma frames_disjoint:
  assumes "bpm_inv s"
  shows "set (free_list s) \<inter> set (pinned_resident_frames s) = {}"
    and "set (free_list s) \<inter> set (unpinned_resident_frames s) = {}"
    and "set (pinned_resident_frames s) \<inter> set (unpinned_resident_frames s) = {}"
    and "set (pinned_resident_frames s) \<inter> set (evictable (replacer s)) = {}"
    and "set (unpinned_resident_frames s) \<subseteq> set (evictable (replacer s))"
proof -
  note I = bpm_invD[OF assms]
  show "set (free_list s) \<inter> set (pinned_resident_frames s) = {}"
    using I(5) by (auto simp: pinned_resident_frames_def)
  show "set (free_list s) \<inter> set (unpinned_resident_frames s) = {}"
    using I(5) by (auto simp: unpinned_resident_frames_def)
  show "set (pinned_resident_frames s) \<inter> set (unpinned_resident_frames s) = {}"
    by (auto simp: pinned_resident_frames_def unpinned_resident_frames_def)
  show "set (pinned_resident_frames s) \<inter> set (evictable (replacer s)) = {}"
    using I(8) by (fastforce simp: pinned_resident_frames_def)
  show "set (unpinned_resident_frames s) \<subseteq> set (evictable (replacer s))"
  proof
    fix g assume "g \<in> set (unpinned_resident_frames s)"
    then have m: "g \<in> set (page_table_frames s)" and "\<not> 0 < pin_count (pages s ! nat g)"
      by (simp_all add: unpinned_resident_frames_def)
    with frame_pin_nonneg[OF I(1) ptf_valid[OF I(1) m]] have "pin_count (pages s ! nat g) = 0"
      by simp
    from I(9)[OF m this] show "g \<in> set (evictable (replacer s))" .
  qed
qed

text \<open>
  C2, as amended. In every state that a run of \<^verbatim>\<open>NewPage\<close>, \<^verbatim>\<open>FetchPage\<close>,
  \<^verbatim>\<open>UnpinPage\<close>, \<^verbatim>\<open>FlushPage\<close>, \<^verbatim>\<open>FlushAllPages\<close> and \<^verbatim>\<open>DeletePage\<close> reaches from a
  freshly constructed instance: no frame id occurs twice in the page table, in the free
  list or in the replacer's evictable list; the free frames, the pinned resident frames
  and the unpinned resident frames are pairwise disjoint; no pinned resident frame is
  evictable and every unpinned resident frame is; the pinned and the unpinned resident
  frames together are the entries of the page table; and the sizes of the free list,
  the pinned resident frames and the unpinned resident frames sum to at most
  \<open>pool_size\<close>. They sum to exactly \<open>pool_size\<close> in every state reached by a run in
  which \<^verbatim>\<open>NewPage\<close> is never called while the id it allocates is in the page table.
\<close>

theorem frames_partition:
  "(reachable s \<longrightarrow>
      distinct (page_table_frames s) \<and> distinct (free_list s) \<and>
      distinct (evictable (replacer s)) \<and>
      set (free_list s) \<inter> set (pinned_resident_frames s) = {} \<and>
      set (free_list s) \<inter> set (unpinned_resident_frames s) = {} \<and>
      set (pinned_resident_frames s) \<inter> set (unpinned_resident_frames s) = {} \<and>
      set (pinned_resident_frames s) \<inter> set (evictable (replacer s)) = {} \<and>
      set (unpinned_resident_frames s) \<subseteq> set (evictable (replacer s)) \<and>
      length (page_table s) =
        length (pinned_resident_frames s) + length (unpinned_resident_frames s) \<and>
      length (free_list s) + length (pinned_resident_frames s) +
        length (unpinned_resident_frames s) \<le> pool_size s) \<and>
   (reachable_fresh s \<longrightarrow>
      length (free_list s) + length (pinned_resident_frames s) +
        length (unpinned_resident_frames s) = pool_size s)"
proof (intro conjI impI)
  assume "reachable s"
  then have inv: "bpm_inv s" by (rule reachable_inv)
  note I = bpm_invD[OF inv]
  show "distinct (page_table_frames s)" by (rule I(3))
  show "distinct (free_list s)" by (rule I(4))
  show "distinct (evictable (replacer s))"
    by (rule replacer_inv_distinct[OF bpm_wfD(2)[OF I(1)]])
  show "set (free_list s) \<inter> set (pinned_resident_frames s) = {}"
    by (rule frames_disjoint(1)[OF inv])
  show "set (free_list s) \<inter> set (unpinned_resident_frames s) = {}"
    by (rule frames_disjoint(2)[OF inv])
  show "set (pinned_resident_frames s) \<inter> set (unpinned_resident_frames s) = {}"
    by (rule frames_disjoint(3)[OF inv])
  show "set (pinned_resident_frames s) \<inter> set (evictable (replacer s)) = {}"
    by (rule frames_disjoint(4)[OF inv])
  show "set (unpinned_resident_frames s) \<subseteq> set (evictable (replacer s))"
    by (rule frames_disjoint(5)[OF inv])
  show "length (page_table s) =
        length (pinned_resident_frames s) + length (unpinned_resident_frames s)"
    by (rule resident_split)
  from frames_count(1)[OF inv] resident_split[of s]
  show "length (free_list s) + length (pinned_resident_frames s) +
        length (unpinned_resident_frames s) \<le> pool_size s" by simp
next
  assume "reachable_fresh s"
  from reachable_fresh_inv[OF this] have inv: "bpm_inv s" and no: "no_orphan s" by simp_all
  from frames_count(2)[OF inv no] resident_split[of s]
  show "length (free_list s) + length (pinned_resident_frames s) +
        length (unpinned_resident_frames s) = pool_size s" by simp
qed

lemma ex_reachable_fresh: "reachable_fresh ex_unpinned"
proof -
  let ?s0 = "ex_pinned\<lparr>next_page_id := 0, pages := [Page_init], page_table := [],
               free_list := [0]\<rparr>"
  have 0: "reachable_fresh ?s0" by (rule reachable_fresh_init[OF ex_pinned_init])
  have "NewPage = NewPage \<longrightarrow> map_of (page_table ?s0) (next_page_id ?s0) = None" by simp
  from reachable_fresh_step[OF 0 ex_pinned_run this] have 1: "reachable_fresh ex_pinned" .
  have "UnpinPage 0 True = NewPage \<longrightarrow>
      map_of (page_table ex_pinned) (next_page_id ex_pinned) = None" by simp
  from reachable_fresh_step[OF 1 ex_unpinned_run this] show ?thesis .
qed

theorem frames_partition_witness:
  "reachable ex_unpinned \<and> reachable_fresh ex_unpinned \<and>
   free_list ex_unpinned = [] \<and> pinned_resident_frames ex_unpinned = [] \<and>
   unpinned_resident_frames ex_unpinned = [0] \<and> evictable (replacer ex_unpinned) = [0] \<and>
   pool_size ex_unpinned = 1 \<and>
   set (unpinned_resident_frames ex_unpinned) \<subseteq> set (evictable (replacer ex_unpinned)) \<and>
   length (free_list ex_unpinned) + length (pinned_resident_frames ex_unpinned) +
     length (unpinned_resident_frames ex_unpinned) = pool_size ex_unpinned"
proof -
  have v: "free_list ex_unpinned = []" "pinned_resident_frames ex_unpinned = []"
    "unpinned_resident_frames ex_unpinned = [0]" "evictable (replacer ex_unpinned) = [0]"
    "pool_size ex_unpinned = 1"
    by (simp_all add: ex_unpinned_def pinned_resident_frames_def unpinned_resident_frames_def
        page_table_frames_def pool_size_def evictable_def Unpin_def LRUReplacer_init_def Let_def)
  from frames_partition[of ex_unpinned] ex_reachable(3) ex_reachable_fresh
  have "set (unpinned_resident_frames ex_unpinned) \<subseteq> set (evictable (replacer ex_unpinned))"
    and "length (free_list ex_unpinned) + length (pinned_resident_frames ex_unpinned) +
     length (unpinned_resident_frames ex_unpinned) = pool_size ex_unpinned"
    by blast+
  with v ex_reachable(3) ex_reachable_fresh show ?thesis by blast
qed

theorem four_way_partition_counterexample:
  "reachable ex_pinned \<and> pool_size ex_pinned = 1 \<and>
   page_table_frames ex_pinned = [0] \<and> pinned_resident_frames ex_pinned = [0] \<and>
   \<not> four_way_partition ex_pinned"
proof -
  have "page_table_frames ex_pinned = [0]" "pinned_resident_frames ex_pinned = [0]"
    "pool_size ex_pinned = 1"
    by (simp_all add: ex_pinned_def pinned_resident_frames_def page_table_frames_def
        pool_size_def)
  moreover from this have "\<not> four_way_partition ex_pinned"
    by (simp add: four_way_partition_def)
  ultimately show ?thesis using ex_reachable(2) by blast
qed

text \<open>
  Two runs that show what the statement above leaves open. \<^verbatim>\<open>DeletePgImp\<close> puts the
  frame on the free list and does not take it out of the replacer. And \<^verbatim>\<open>NewPage\<close>
  called while the id it allocates is resident (here after a fetch of page 0, which had
  not been allocated) overwrites that page-table entry, after which the frame of the
  old entry is neither in the page table nor in the free list.
\<close>

lemma DeletePgImp_leaves_frame_evictable:
  "\<exists>s. apply_op (DeletePage 0) ex_unpinned = Inr (Bool_ret True, s) \<and>
       free_list s = [0] \<and> evictable (replacer s) = [0]"
  by (simp add: ex_unpinned_def DeletePgImp_def frame_valid_def evictable_def Unpin_def
      LRUReplacer_init_def Let_def)

lemma NewPage_of_resident_id_orphans_frame:
  "\<exists>s0 s. BufferPoolManagerInstance_init 2 1 0 (\<lambda>_. []) = Inr s0 \<and>
      run_ops s0 [FetchPage 0, NewPage] =
        Inr ([FetchPage_ret (Some 0), NewPage_ret (Some (0, 1))], s) \<and>
      page_table s = [(0, 1)] \<and> free_list s = [] \<and> pool_size s = 2"
  by (simp add: BufferPoolManagerInstance_init_def NewPgImp_def FetchPgImp_def AllocatePage_def
      ValidatePageId_def pick_frame_def frame_valid_def Pin_def LRUReplacer_init_def
      pool_size_def Let_def upt_rec)

end
